theory Spec2Isabelle
  imports Main "HOL-Library.Code_Target_Numeral"
begin

section \<open>Bytes, errors and outcomes\<close>

text \<open>
  Go's \<^verbatim>\<open>[]byte\<close> and \<^verbatim>\<open>string\<close> are both byte sequences; a byte is a \<^typ>\<open>char\<close>
  (\<^term>\<open>of_char\<close> reads it as a number below 256, \<^term>\<open>char_of\<close> keeps the low eight bits,
  as the conversion \<^verbatim>\<open>byte(word)\<close> does). Lengths and offsets that the code keeps
  non-negative are \<^typ>\<open>nat\<close>; the cursor of the ECDSA loops, which the code decrements
  before every use, is an \<^typ>\<open>int\<close> with the bounds check of every index written out.
\<close>

type_synonym byte = char
type_synonym bytes = "byte list"

datatype error = AlgError string | errNoSecret | External string

text \<open>
  A call either panics (index or slice bounds out of range) or returns. The signing
  functions return the Go pair \<^verbatim>\<open>(token, err)\<close>; \<^verbatim>\<open>nil\<close> is \<^term>\<open>None\<close>.
\<close>

datatype 'a outcome = Panic | Return 'a

section \<open>The base64url codec\<close>

definition encodeURL :: string where
  "encodeURL = ''ABCDEFGHIJKLMNOPQRSTUVWXYZabcdefghijklmnopqrstuvwxyz0123456789-_''"

text \<open>\<^verbatim>\<open>enc.encode[val>>k&0x3F]\<close>: the shift and the mask on an unsigned value.\<close>

definition enc6 :: "nat \<Rightarrow> nat \<Rightarrow> byte" where
  "enc6 val k = encodeURL ! (val div 2 ^ k mod 64)"

text \<open>
  Modelled from the spec: the codec \<^verbatim>\<open>encoding\<close> is declared outside \<^verbatim>\<open>src/\<close> (it is Go's
  unpadded URL-safe base64). \<^verbatim>\<open>encodedLen(n)\<close> is the pure expansion length,
  \<^verbatim>\<open>n/3*4 + (n%3*8+5)/6\<close>.
\<close>

definition EncodedLen :: "nat \<Rightarrow> nat" where
  "EncodedLen n = n div 3 * 4 + (n mod 3 * 8 + 5) div 6"

definition byte_at :: "bytes \<Rightarrow> nat \<Rightarrow> nat" where
  "byte_at mem i = of_char (mem ! i)"

text \<open>
  Modelled from the spec: \<^verbatim>\<open>encode(dst, src)\<close> consumes the input strictly sequentially in
  3-byte groups while producing 4-byte groups, writes exactly \<^verbatim>\<open>encodedLen(len(src))\<close>
  bytes, no padding, and may be called with \<^verbatim>\<open>dst\<close> and \<^verbatim>\<open>src\<close> views into the same
  backing storage. Both views are windows \<open>(offset, length)\<close> of one memory \<open>mem\<close>, so
  that a write can hit a byte that is still to be read. All bytes of a group are read
  before its four bytes are written. A write past the end of \<^verbatim>\<open>dst\<close> panics
  (\<^term>\<open>None\<close>). The three-byte value \<^verbatim>\<open>b0<<16 | b1<<8 | b2\<close> joins disjoint bit
  fields, which is the sum.
\<close>

function Encode_loop ::
  "bytes \<Rightarrow> nat \<times> nat \<Rightarrow> nat \<times> nat \<Rightarrow> nat \<Rightarrow> nat \<Rightarrow> nat \<Rightarrow> (bytes \<times> nat \<times> nat) option" where
  "Encode_loop mem dst src n di si =
     (if si < n then
        (let val = byte_at mem (fst src + si) * 65536
                 + byte_at mem (fst src + si + 1) * 256
                 + byte_at mem (fst src + si + 2)
         in if di + 3 < snd dst then
              Encode_loop
                (mem[fst dst + di := enc6 val 18,
                     fst dst + di + 1 := enc6 val 12,
                     fst dst + di + 2 := enc6 val 6,
                     fst dst + di + 3 := enc6 val 0])
                dst src n (di + 4) (si + 3)
            else None)
      else Some (mem, di, si))"
  by pat_completeness auto
termination
  by (relation "measure (\<lambda>(mem, dst, src, n, di, si). n - si)") auto

declare Encode_loop.simps [simp del]

definition Encode :: "bytes \<Rightarrow> nat \<times> nat \<Rightarrow> nat \<times> nat \<Rightarrow> bytes option" where
  "Encode mem dst src =
     (if snd src = 0 then Some mem
      else case Encode_loop mem dst src (snd src div 3 * 3) 0 0 of
        None \<Rightarrow> None
      | Some (mem1, di, si) \<Rightarrow>
          (let remain = snd src - si in
           if remain = 0 then Some mem1
           else
             (let val0 = byte_at mem1 (fst src + si) * 65536;
                  val = (if remain = 2 then val0 + byte_at mem1 (fst src + si + 1) * 256 else val0)
              in if di + 1 < snd dst then
                   (let mem2 = mem1[fst dst + di := enc6 val 18, fst dst + di + 1 := enc6 val 12]
                    in if remain = 2 then
                         (if di + 2 < snd dst
                          then Some (mem2[fst dst + di + 2 := enc6 val 6])
                          else None)
                       else Some mem2)
                 else None)))"

text \<open>
  The source in an array of its own: the same loop, run on the memory that holds the
  destination array followed by the source array.
\<close>

definition Encode_from :: "bytes \<Rightarrow> nat \<times> nat \<Rightarrow> bytes \<Rightarrow> bytes option" where
  "Encode_from mem dst src =
     map_option (take (length mem))
       (Encode (mem @ src) dst (length mem, length src))"

text \<open>
  The reference encoding, on the byte sequence alone: base64 with the URL-safe alphabet and
  no padding characters, three bytes to four characters, a last group of two bytes to
  three characters and of one byte to two.
\<close>

fun base64url :: "bytes \<Rightarrow> bytes" where
  "base64url (a # b # c # rest) =
     (let val = of_char a * 65536 + of_char b * 256 + of_char c
      in enc6 val 18 # enc6 val 12 # enc6 val 6 # enc6 val 0 # base64url rest)"
| "base64url [a, b] =
     (let val = of_char a * 65536 + of_char b * 256
      in [enc6 val 18, enc6 val 12, enc6 val 6])"
| "base64url [a] =
     (let val = of_char a * 65536
      in [enc6 val 18, enc6 val 12])"
| "base64url [] = []"

section \<open>Slices\<close>

text \<open>
  A slice is its backing array from the slice's first element up to its capacity, and
  its length. \<open>allocs\<close> counts how often the backing array was allocated: once by
  \<^verbatim>\<open>make\<close>, once more by every \<^verbatim>\<open>append\<close> that finds no room (the Go runtime picks the
  new capacity; the model doubles it).
\<close>

record slice =
  arr :: bytes
  len :: nat
  allocs :: nat

definition cap :: "slice \<Rightarrow> nat" where
  "cap t = length (arr t)"

definition bytes_of :: "slice \<Rightarrow> bytes" where
  "bytes_of t = take (len t) (arr t)"

definition make_slice :: "nat \<Rightarrow> nat \<Rightarrow> slice" where
  "make_slice l c = \<lparr>arr = replicate c (CHR 0x00), len = l, allocs = 1\<rparr>"

definition append_byte :: "slice \<Rightarrow> byte \<Rightarrow> slice" where
  "append_byte t b =
     (if len t < cap t
      then t\<lparr>arr := (arr t)[len t := b], len := len t + 1\<rparr>
      else t\<lparr>arr := take (len t) (arr t) @ b # replicate (len t) (CHR 0x00),
             len := len t + 1, allocs := allocs t + 1\<rparr>)"

text \<open>\<^verbatim>\<open>copy(token, fixed)\<close> copies as many bytes as both hold.\<close>

definition copy_string :: "slice \<Rightarrow> string \<Rightarrow> slice" where
  "copy_string t s =
     (let n = min (len t) (length s)
      in t\<lparr>arr := take n s @ drop n (arr t)\<rparr>)"

text \<open>\<^verbatim>\<open>token[i] = b\<close>.\<close>

definition set_byte :: "slice \<Rightarrow> nat \<Rightarrow> byte \<Rightarrow> slice option" where
  "set_byte t i b = (if i < len t then Some (t\<lparr>arr := (arr t)[i := b]\<rparr>) else None)"

text \<open>\<^verbatim>\<open>encoding.Encode(token[off:], src)\<close> with \<open>src\<close> in an array of its own.\<close>

definition Encode_slice :: "slice \<Rightarrow> nat \<Rightarrow> bytes \<Rightarrow> slice option" where
  "Encode_slice t off src =
     (if off \<le> len t
      then map_option (\<lambda>a. t\<lparr>arr := a\<rparr>) (Encode_from (arr t) (off, len t - off) src)
      else None)"

text \<open>
  \<^verbatim>\<open>digest.Sum(b)\<close> appends the digest to the slice \<open>b\<close> that starts at \<open>off\<close> with length
  zero and reaches to the end of the array: in place when it fits, into a new array
  otherwise. The result says where the appended bytes are.
\<close>

datatype source = InPlace nat nat | Separate bytes

definition Sum_at :: "bytes \<Rightarrow> nat \<Rightarrow> bytes \<Rightarrow> bytes \<times> source" where
  "Sum_at mem off d =
     (if off + length d \<le> length mem
      then (take off mem @ d @ drop (off + length d) mem, InPlace off (length d))
      else (mem, Separate d))"

definition Encode_source :: "bytes \<Rightarrow> nat \<times> nat \<Rightarrow> source \<Rightarrow> bytes option" where
  "Encode_source mem dst src =
     (case src of InPlace s n \<Rightarrow> Encode mem dst (s, n) | Separate d \<Rightarrow> Encode_from mem dst d)"

section \<open>Quoting with \<^verbatim>\<open>strconv.AppendQuote\<close>\<close>

text \<open>
  \<^verbatim>\<open>strconv.AppendQuote\<close> of the Go library appends a double-quoted Go string literal:
  the quote and the backslash are backslashed, printable runes are copied, the control
  characters with a Go escape use it (\<^verbatim>\<open>\a \b \f \n \r \t \v\<close>), the other bytes below
  0x20 and 0x7f become \<^verbatim>\<open>\x\<close> and two hex digits, invalid UTF-8 bytes become \<^verbatim>\<open>\x\<close> and
  two hex digits, and other unprintable runes \<^verbatim>\<open>\u\<close> or \<^verbatim>\<open>\U\<close> and four or eight hex
  digits. Which runes above 0xFF are printable is a table of the library; it is the
  parameter \<open>tab\<close>.
\<close>

definition lowerhex :: string where
  "lowerhex = ''0123456789abcdef''"

fun hex :: "nat \<Rightarrow> nat \<Rightarrow> string" where
  "hex 0 r = []"
| "hex (Suc k) r = hex k (r div 16) @ [lowerhex ! (r mod 16)]"

definition RuneError :: nat where
  "RuneError = 0xFFFD"

definition in_range :: "nat \<Rightarrow> nat \<Rightarrow> byte \<Rightarrow> bool" where
  "in_range lo hi b = (lo \<le> of_char b \<and> (of_char b :: nat) \<le> hi)"

definition maskx :: "byte \<Rightarrow> nat" where
  "maskx b = of_char b mod 64"

definition DecodeRuneInString :: "string \<Rightarrow> nat \<times> nat" where
  "DecodeRuneInString s =
     (case s of
        [] \<Rightarrow> (RuneError, 0)
      | s0 # rest \<Rightarrow>
          (let b0 = of_char s0 :: nat in
           if b0 < 0x80 then (b0, 1)
           else if b0 < 0xC2 \<or> 0xF4 < b0 then (RuneError, 1)
           else
             (let sz = (if b0 < 0xE0 then 2 else if b0 < 0xF0 then 3 else 4) :: nat;
                  lo = (if b0 = 0xE0 then 0xA0 else if b0 = 0xF0 then 0x90 else 0x80);
                  hi = (if b0 = 0xED then 0x9F else if b0 = 0xF4 then 0x8F else 0xBF)
              in if length s < sz then (RuneError, 1)
                 else if \<not> in_range lo hi (s ! 1) then (RuneError, 1)
                 else if sz \<le> 2 then (b0 mod 32 * 64 + maskx (s ! 1), 2)
                 else if \<not> in_range 0x80 0xBF (s ! 2) then (RuneError, 1)
                 else if sz \<le> 3
                   then (b0 mod 16 * 4096 + maskx (s ! 1) * 64 + maskx (s ! 2), 3)
                 else if \<not> in_range 0x80 0xBF (s ! 3) then (RuneError, 1)
                 else (b0 mod 8 * 262144 + maskx (s ! 1) * 4096 + maskx (s ! 2) * 64
                         + maskx (s ! 3), 4))))"

definition IsPrint :: "(nat \<Rightarrow> bool) \<Rightarrow> nat \<Rightarrow> bool" where
  "IsPrint tab r =
     (if r \<le> 0xFF
      then (0x20 \<le> r \<and> r < 0x7F) \<or> (0xA1 \<le> r \<and> r \<noteq> 0xAD)
      else tab r)"

definition ValidRune :: "nat \<Rightarrow> bool" where
  "ValidRune r = (r < 0xD800 \<or> (0xDFFF < r \<and> r \<le> 0x10FFFF))"

text \<open>\<open>utf8\<close> holds the UTF-8 bytes of the rune \<open>r\<close>, as read from the string.\<close>

definition appendEscapedRune :: "(nat \<Rightarrow> bool) \<Rightarrow> string \<Rightarrow> nat \<Rightarrow> string \<Rightarrow> string" where
  "appendEscapedRune tab buf r utf8 =
     (if r = 0x22 \<or> r = 0x5C then buf @ [CHR 0x5C, char_of r]
      else if IsPrint tab r then buf @ utf8
      else if r = 0x07 then buf @ [CHR 0x5C, CHR ''a'']
      else if r = 0x08 then buf @ [CHR 0x5C, CHR ''b'']
      else if r = 0x0C then buf @ [CHR 0x5C, CHR ''f'']
      else if r = 0x0A then buf @ [CHR 0x5C, CHR ''n'']
      else if r = 0x0D then buf @ [CHR 0x5C, CHR ''r'']
      else if r = 0x09 then buf @ [CHR 0x5C, CHR ''t'']
      else if r = 0x0B then buf @ [CHR 0x5C, CHR ''v'']
      else if r < 0x20 \<or> r = 0x7F then buf @ [CHR 0x5C, CHR ''x''] @ hex 2 r
      else if \<not> ValidRune r then buf @ [CHR 0x5C, CHR ''u''] @ hex 4 RuneError
      else if r < 0x10000 then buf @ [CHR 0x5C, CHR ''u''] @ hex 4 r
      else buf @ [CHR 0x5C, CHR ''U''] @ hex 8 r)"

function quote_loop :: "(nat \<Rightarrow> bool) \<Rightarrow> string \<Rightarrow> string \<Rightarrow> string" where
  "quote_loop tab buf s =
     (if s = [] then buf
      else
        (let (r, width) = (if (of_char (hd s) :: nat) \<ge> 0x80 then DecodeRuneInString s
                           else (of_char (hd s), 1))
         in if width = 1 \<and> r = RuneError
            then quote_loop tab (buf @ [CHR 0x5C, CHR ''x''] @ hex 2 (of_char (hd s))) (drop 1 s)
            else quote_loop tab (appendEscapedRune tab buf r (take width s))
                   (drop (max 1 width) s)))"
  by pat_completeness auto
termination
  by (relation "measure (\<lambda>(tab, buf, s). length s)") auto

declare quote_loop.simps [simp del]

definition AppendQuote :: "(nat \<Rightarrow> bool) \<Rightarrow> string \<Rightarrow> string \<Rightarrow> string" where
  "AppendQuote tab buf s = quote_loop tab (buf @ [CHR 0x22]) s @ [CHR 0x22]"

section \<open>Claims, keys and the external collaborators\<close>

record claims =
  Raw :: bytes
  KeyID :: string

text \<open>
  Modelled from the spec: the algorithm identifiers are constants declared outside
  \<^verbatim>\<open>src/\<close>; each is its own name (section 4.1 of the spec lists them).
\<close>

definition EdDSA :: string where "EdDSA = ''EdDSA''"
definition ES256 :: string where "ES256 = ''ES256''"
definition ES384 :: string where "ES384 = ''ES384''"
definition ES512 :: string where "ES512 = ''ES512''"
definition HS256 :: string where "HS256 = ''HS256''"
definition HS384 :: string where "HS384 = ''HS384''"
definition HS512 :: string where "HS512 = ''HS512''"
definition PS256 :: string where "PS256 = ''PS256''"
definition PS384 :: string where "PS384 = ''PS384''"
definition PS512 :: string where "PS512 = ''PS512''"
definition RS256 :: string where "RS256 = ''RS256''"
definition RS384 :: string where "RS384 = ''RS384''"
definition RS512 :: string where "RS512 = ''RS512''"

text \<open>The three families a signing function can ask the lookup for.\<close>

datatype family = ECDSAAlgs | HMACAlgs | RSAAlgs

text \<open>\<^verbatim>\<open>crypto.Hash\<close> is an unsigned identifier of a hash function.\<close>

type_synonym hash = nat

text \<open>
  The keys: of an ECDSA key the code reads the bit size of the curve, of an RSA key the
  size of the modulus in bytes; the key material itself only reaches the primitives.
\<close>

record ecdsa_PrivateKey =
  BitSize :: nat
  ecdsa_D :: nat

record rsa_PrivateKey =
  Size :: nat
  rsa_D :: nat

text \<open>
  What the signing engine calls and \<^verbatim>\<open>src/\<close> does not hold is a parameter:
  \<^item> \<open>sync\<close>: \<^verbatim>\<open>c.sync(alg)\<close> serialises the claims into \<^verbatim>\<open>c.Raw\<close> and returns the header
    JSON override (\<^verbatim>\<open>nil\<close> when there is none) or an error;
  \<^item> \<open>hashLookup\<close>: the hash of an algorithm in a family, or an error;
  \<^item> \<open>hash_Size\<close>, \<open>hash_Sum\<close>, \<open>hmac_Sum\<close>: the size of a hash, the digest of a message,
    the MAC of a message under a secret;
  \<^item> \<open>rsa_SignPSS\<close>, \<open>rsa_SignPKCS1v15\<close>, \<open>ecdsa_Sign\<close>, \<open>ed25519_Sign\<close>: the signature
    primitives, with the random source of the run folded in; \<open>ed25519_Sign\<close> panics
    (\<^term>\<open>None\<close>) on a key of the wrong length;
  \<^item> \<open>IntSize\<close>: \<^verbatim>\<open>strconv.IntSize\<close>, the bits of a machine word, 32 or 64;
  \<^item> \<open>isPrint\<close>: the library's table of printable runes above 0xFF.
\<close>

record env =
  sync :: "claims \<Rightarrow> string \<Rightarrow> claims \<times> bytes option \<times> error option"
  hashLookup :: "string \<Rightarrow> family \<Rightarrow> hash \<times> error option"
  hash_Size :: "hash \<Rightarrow> nat"
  hash_Sum :: "hash \<Rightarrow> bytes \<Rightarrow> bytes"
  hmac_Sum :: "hash \<Rightarrow> bytes \<Rightarrow> bytes \<Rightarrow> bytes"
  rsa_SignPSS :: "rsa_PrivateKey \<Rightarrow> hash \<Rightarrow> bytes \<Rightarrow> bytes \<times> error option"
  rsa_SignPKCS1v15 :: "rsa_PrivateKey \<Rightarrow> hash \<Rightarrow> bytes \<Rightarrow> bytes \<times> error option"
  ecdsa_Sign :: "ecdsa_PrivateKey \<Rightarrow> bytes \<Rightarrow> int \<times> int \<times> error option"
  ed25519_Sign :: "bytes \<Rightarrow> bytes \<Rightarrow> bytes option"
  IntSize :: nat
  isPrint :: "nat \<Rightarrow> bool"

section \<open>\<^verbatim>\<open>newToken\<close>\<close>

text \<open>The \<^verbatim>\<open>switch\<close> over the fixed headers; no case leaves \<^verbatim>\<open>fixed\<close> empty.\<close>

definition fixed_header :: "string \<Rightarrow> string" where
  "fixed_header alg =
     (if alg = EdDSA then ''eyJhbGciOiJFZERTQSJ9.''
      else if alg = ES256 then ''eyJhbGciOiJFUzI1NiJ9.''
      else if alg = ES384 then ''eyJhbGciOiJFUzM4NCJ9.''
      else if alg = ES512 then ''eyJhbGciOiJFUzUxMiJ9.''
      else if alg = HS256 then ''eyJhbGciOiJIUzI1NiJ9.''
      else if alg = HS384 then ''eyJhbGciOiJIUzM4NCJ9.''
      else if alg = HS512 then ''eyJhbGciOiJIUzUxMiJ9.''
      else if alg = PS256 then ''eyJhbGciOiJQUzI1NiJ9.''
      else if alg = PS384 then ''eyJhbGciOiJQUzM4NCJ9.''
      else if alg = PS512 then ''eyJhbGciOiJQUzUxMiJ9.''
      else if alg = RS256 then ''eyJhbGciOiJSUzI1NiJ9.''
      else if alg = RS384 then ''eyJhbGciOiJSUzM4NCJ9.''
      else if alg = RS512 then ''eyJhbGciOiJSUzUxMiJ9.''
      else [])"

text \<open>Lines 201 to 213: the header JSON when \<^verbatim>\<open>sync\<close> gave none.\<close>

definition buildHeaderJSON :: "env \<Rightarrow> claims \<Rightarrow> string \<Rightarrow> bytes" where
  \<open>buildHeaderJSON E c alg =
     (let headerJSON =
            (if KeyID c = [] then ''{"alg":''
             else AppendQuote (isPrint E) ''{"kid":'' (KeyID c) @ '',"alg":'');
          headerJSON = AppendQuote (isPrint E) headerJSON alg
      in headerJSON @ ''}'')\<close>

text \<open>Lines 215 to 223: the general path, from a header JSON.\<close>

definition slowToken :: "claims \<Rightarrow> nat \<Rightarrow> bytes \<Rightarrow> slice option" where
  "slowToken c encSigLen headerJSON =
     (let headerLen = EncodedLen (length headerJSON);
          l = headerLen + 1 + EncodedLen (length (Raw c));
          token = make_slice l (l + 1 + encSigLen)
      in case Encode_slice token 0 headerJSON of
           None \<Rightarrow> None
         | Some token \<Rightarrow>
             (case set_byte token headerLen (CHR ''.'') of
                None \<Rightarrow> None
              | Some token \<Rightarrow> Encode_slice token (headerLen + 1) (Raw c)))"

definition newToken :: "env \<Rightarrow> claims \<Rightarrow> string \<Rightarrow> nat \<Rightarrow> bytes option \<Rightarrow> slice option" where
  "newToken E c alg encSigLen headerJSON =
     (let fixed = (if headerJSON = None \<and> KeyID c = [] then fixed_header alg else [])
      in if fixed \<noteq> [] then
           (let l = length fixed + EncodedLen (length (Raw c));
                token = make_slice l (l + 1 + encSigLen);
                token = copy_string token fixed
            in Encode_slice token (length fixed) (Raw c))
         else
           slowToken c encSigLen
             (case headerJSON of
                None \<Rightarrow> buildHeaderJSON E c alg
              | Some h \<Rightarrow> h))"

section \<open>The signing functions\<close>

type_synonym result = "(slice option \<times> error option) outcome"

definition FormatWithoutSign :: "env \<Rightarrow> claims \<Rightarrow> string \<Rightarrow> result" where
  "FormatWithoutSign E c alg =
     (case sync E c alg of
        (c, headerJSON, Some err) \<Rightarrow> Return (None, Some err)
      | (c, headerJSON, None) \<Rightarrow>
          (case newToken E c alg 0 headerJSON of
             None \<Rightarrow> Panic
           | Some token \<Rightarrow> Return (Some token, None)))"

text \<open>
  \<^verbatim>\<open>x.Bits()\<close>: the words of the absolute value, least significant first, without
  leading zero words.
\<close>

function words_of :: "nat \<Rightarrow> nat \<Rightarrow> nat list" where
  "words_of w x = (if x = 0 \<or> w = 0 then [] else x mod 2 ^ w # words_of w (x div 2 ^ w))"
  by pat_completeness auto
termination
proof (relation "measure (\<lambda>(w, x). x)")
  show "wf (measure (\<lambda>(w, x). x))" by simp
next
  fix w x :: nat
  assume "\<not> (x = 0 \<or> w = 0)"
  then have "0 < w" and "0 < x" by simp_all
  have "(2::nat) ^ 1 \<le> 2 ^ w" using \<open>0 < w\<close> by (intro power_increasing) simp_all
  then have "1 < (2::nat) ^ w" by simp
  with \<open>0 < x\<close>
  have "x div 2 ^ w < x" by (simp add: div_less_dividend)
  then show "((w, x div 2 ^ w), (w, x)) \<in> measure (\<lambda>(w, x). x)" by simp
qed

declare words_of.simps [simp del]

definition Bits :: "nat \<Rightarrow> int \<Rightarrow> nat list" where
  "Bits w x = words_of w (nat \<bar>x\<bar>)"

text \<open>
  The inner loop of lines 52 to 56 and 61 to 65: \<^verbatim>\<open>i--; sig[i] = byte(word); word >>= 8\<close>
  while \<^verbatim>\<open>bitCount > 0\<close>. An index outside \<open>sig\<close> panics.
\<close>

function put_word :: "int \<Rightarrow> bytes \<times> int \<Rightarrow> nat \<Rightarrow> (bytes \<times> int) option" where
  "put_word bitCount (sig, i) word =
     (if bitCount > 0 then
        (let i = i - 1
         in if 0 \<le> i \<and> i < int (length sig)
            then put_word (bitCount - 8) (sig[nat i := char_of word], i) (word div 256)
            else None)
      else Some (sig, i))"
  by pat_completeness auto
termination
  by (relation "measure (\<lambda>(bitCount, st, word). nat bitCount)") auto

declare put_word.simps [simp del]

text \<open>The outer loop, over the words.\<close>

fun put_words :: "nat \<Rightarrow> bytes \<times> int \<Rightarrow> nat list \<Rightarrow> (bytes \<times> int) option" where
  "put_words intSize st [] = Some st"
| "put_words intSize st (word # ws) =
     (case put_word (int intSize) st word of
        None \<Rightarrow> None
      | Some st \<Rightarrow> put_words intSize st ws)"

text \<open>
  Lines 49 to 66: \<open>s\<close> is packed from the end of \<open>sig\<close>, the cursor is set to
  \<^verbatim>\<open>len(sig) - paramLen\<close>, then \<open>r\<close> is packed.
\<close>

definition pack_signature :: "nat \<Rightarrow> nat \<Rightarrow> bytes \<Rightarrow> int \<Rightarrow> int \<Rightarrow> bytes option" where
  "pack_signature intSize paramLen sig r s =
     (case put_words intSize (sig, int (length sig)) (Bits intSize s) of
        None \<Rightarrow> None
      | Some (sig, i) \<Rightarrow>
          (case put_words intSize (sig, int (length sig) - int paramLen) (Bits intSize r) of
             None \<Rightarrow> None
           | Some (sig, i) \<Rightarrow> Some sig))"

definition ECDSASign :: "env \<Rightarrow> claims \<Rightarrow> string \<Rightarrow> ecdsa_PrivateKey \<Rightarrow> result" where
  "ECDSASign E c alg key =
     (case sync E c alg of
        (c, headerJSON, Some err) \<Rightarrow> Return (None, Some err)
      | (c, headerJSON, None) \<Rightarrow>
          (case hashLookup E alg ECDSAAlgs of
             (hash, Some err) \<Rightarrow> Return (None, Some err)
           | (hash, None) \<Rightarrow>
               (let paramLen = (BitSize key + 7) div 8
                in case newToken E c alg (EncodedLen (paramLen * 2)) headerJSON of
                     None \<Rightarrow> Panic
                   | Some token \<Rightarrow>
                       (let digest = hash_Sum E hash (bytes_of token);
                            token = append_byte token (CHR ''.'')
                        in case ecdsa_Sign E key digest of
                             (r, s, Some err) \<Rightarrow> Return (None, Some err)
                           | (r, s, None) \<Rightarrow>
                               (let sig = drop (len token) (arr token)
                                in case pack_signature (IntSize E) paramLen sig r s of
                                     None \<Rightarrow> Panic
                                   | Some sig \<Rightarrow>
                                       (if 2 * paramLen \<le> length sig then
                                          (case Encode sig (0, length sig)
                                                  (length sig - 2 * paramLen, 2 * paramLen) of
                                             None \<Rightarrow> Panic
                                           | Some sig \<Rightarrow>
                                               Return
                                                 (Some (token\<lparr>arr := take (len token) (arr token) @ sig,
                                                              len := cap token\<rparr>),
                                                  None))
                                        else Panic))))))"

definition EdDSASign :: "env \<Rightarrow> claims \<Rightarrow> bytes \<Rightarrow> result" where
  "EdDSASign E c key =
     (case sync E c EdDSA of
        (c, headerJSON, Some err) \<Rightarrow> Return (None, Some err)
      | (c, headerJSON, None) \<Rightarrow>
          (case newToken E c EdDSA (EncodedLen 64) headerJSON of
             None \<Rightarrow> Panic
           | Some token \<Rightarrow>
               (case ed25519_Sign E key (bytes_of token) of
                  None \<Rightarrow> Panic
                | Some sig \<Rightarrow>
                    (let i = len token;
                         token = token\<lparr>len := cap token\<rparr>
                     in case set_byte token i (CHR ''.'') of
                          None \<Rightarrow> Panic
                        | Some token \<Rightarrow>
                            (case Encode_slice token (i + 1) sig of
                               None \<Rightarrow> Panic
                             | Some token \<Rightarrow> Return (Some token, None))))))"

definition HMACSign :: "env \<Rightarrow> claims \<Rightarrow> string \<Rightarrow> bytes \<Rightarrow> result" where
  "HMACSign E c alg secret =
     (if length secret = 0 then Return (None, Some errNoSecret)
      else
        (case sync E c alg of
           (c, headerJSON, Some err) \<Rightarrow> Return (None, Some err)
         | (c, headerJSON, None) \<Rightarrow>
             (case hashLookup E alg HMACAlgs of
                (hash, Some err) \<Rightarrow> Return (None, Some err)
              | (hash, None) \<Rightarrow>
                  (case newToken E c alg (EncodedLen (hash_Size E hash)) headerJSON of
                     None \<Rightarrow> Panic
                   | Some token \<Rightarrow>
                       (let mac = hmac_Sum E hash secret (bytes_of token);
                            token = append_byte token (CHR ''.'')
                        in if hash_Size E hash \<le> cap token then
                             (let bufOffset = cap token - hash_Size E hash;
                                  (mem, src) = Sum_at (arr token) bufOffset mac
                              in case Encode_source mem (len token, cap token - len token) src of
                                   None \<Rightarrow> Panic
                                 | Some mem \<Rightarrow>
                                     Return (Some (token\<lparr>arr := mem, len := cap token\<rparr>), None))
                           else Panic)))))"

definition RSASign :: "env \<Rightarrow> claims \<Rightarrow> string \<Rightarrow> rsa_PrivateKey \<Rightarrow> result" where
  "RSASign E c alg key =
     (case sync E c alg of
        (c, headerJSON, Some err) \<Rightarrow> Return (None, Some err)
      | (c, headerJSON, None) \<Rightarrow>
          (case hashLookup E alg RSAAlgs of
             (hash, Some err) \<Rightarrow> Return (None, Some err)
           | (hash, None) \<Rightarrow>
               (case newToken E c alg (EncodedLen (Size key)) headerJSON of
                  None \<Rightarrow> Panic
                | Some token \<Rightarrow>
                    (let digest = hash_Sum E hash (bytes_of token);
                         (mem, buf) = Sum_at (arr token) (len token) digest;
                         (sig, err) =
                           (if alg \<noteq> [] \<and> hd alg = CHR ''P''
                            then rsa_SignPSS E key hash digest
                            else rsa_SignPKCS1v15 E key hash digest)
                     in case err of
                          Some err \<Rightarrow> Return (None, Some err)
                        | None \<Rightarrow>
                            (let i = len token;
                                 token = token\<lparr>arr := mem, len := cap token\<rparr>
                             in case set_byte token i (CHR ''.'') of
                                  None \<Rightarrow> Panic
                                | Some token \<Rightarrow>
                                    (case Encode_slice token (i + 1) sig of
                                       None \<Rightarrow> Panic
                                     | Some token \<Rightarrow> Return (Some token, None)))))))"

section \<open>Reference forms of the token\<close>

text \<open>
  The header JSON that \<^verbatim>\<open>newToken\<close> encodes on its general path, the encoded header
  segment on either path (the fixed header without its delimiter on the fast path), and
  the unsigned prefix \<^verbatim>\<open>encodedHeader "." encodedPayload\<close>.
\<close>

definition headerJSON_of :: "env \<Rightarrow> claims \<Rightarrow> string \<Rightarrow> bytes option \<Rightarrow> bytes" where
  "headerJSON_of E c alg headerJSON =
     (case headerJSON of None \<Rightarrow> buildHeaderJSON E c alg | Some h \<Rightarrow> h)"

definition fast_path :: "claims \<Rightarrow> string \<Rightarrow> bytes option \<Rightarrow> bool" where
  "fast_path c alg headerJSON =
     (headerJSON = None \<and> KeyID c = [] \<and> fixed_header alg \<noteq> [])"

definition encodedHeader :: "env \<Rightarrow> claims \<Rightarrow> string \<Rightarrow> bytes option \<Rightarrow> bytes" where
  "encodedHeader E c alg headerJSON =
     (if fast_path c alg headerJSON then butlast (fixed_header alg)
      else base64url (headerJSON_of E c alg headerJSON))"

definition unsigned_prefix :: "env \<Rightarrow> claims \<Rightarrow> string \<Rightarrow> bytes option \<Rightarrow> bytes" where
  "unsigned_prefix E c alg headerJSON =
     encodedHeader E c alg headerJSON @ CHR ''.'' # base64url (Raw c)"

section \<open>Contracts of the primitives and the shape of a token\<close>

text \<open>
  What the engine relies on from the primitives: a MAC has the size of its hash, an RSA
  signature the size of the modulus, an Ed25519 signature 64 bytes.
\<close>

definition primitives_ok :: "env \<Rightarrow> bool" where
  "primitives_ok E =
     ((\<forall>h k m. length (hmac_Sum E h k m) = hash_Size E h) \<and>
      (\<forall>k h d sig. rsa_SignPSS E k h d = (sig, None) \<longrightarrow> length sig = Size k) \<and>
      (\<forall>k h d sig. rsa_SignPKCS1v15 E k h d = (sig, None) \<longrightarrow> length sig = Size k) \<and>
      (\<forall>k m sig. ed25519_Sign E k m = Some sig \<longrightarrow> length sig = 64))"

text \<open>The segments of a token: the pieces between the delimiters.\<close>

fun segments :: "bytes \<Rightarrow> bytes list" where
  "segments [] = [[]]"
| "segments (b # bs) =
     (if b = CHR ''.'' then [] # segments bs
      else (b # hd (segments bs)) # tl (segments bs))"

definition is_base64url :: "bytes \<Rightarrow> bool" where
  "is_base64url seg = list_all (\<lambda>b. b \<in> set encodeURL) seg"

definition token_shape :: "nat \<Rightarrow> bytes \<Rightarrow> bool" where
  "token_shape k bs = (length (segments bs) = k \<and> list_all is_base64url (segments bs))"

text \<open>
  The byte-oriented packing of the spec: the value as \<open>n\<close> bytes, most significant
  first, zero-filled on the left.
\<close>

fun be_bytes :: "nat \<Rightarrow> nat \<Rightarrow> bytes" where
  "be_bytes 0 x = []"
| "be_bytes (Suc n) x = be_bytes n (x div 256) @ [char_of x]"

text \<open>The thirteen identifiers of the fixed table, in the order of the \<^verbatim>\<open>switch\<close>.\<close>

definition fixed_algs :: "string list" where
  "fixed_algs = [EdDSA, ES256, ES384, ES512, HS256, HS384, HS512,
                 PS256, PS384, PS512, RS256, RS384, RS512]"

text \<open>
  A byte that both Go's quoting and JSON's leave as it is: printable ASCII other than
  the quote and the backslash.
\<close>

definition plain_ascii :: "byte \<Rightarrow> bool" where
  "plain_ascii b =
     (0x20 \<le> (of_char b :: nat) \<and> (of_char b :: nat) < 0x7F \<and>
      (of_char b :: nat) \<noteq> 0x22 \<and> (of_char b :: nat) \<noteq> 0x5C)"

text \<open>
  A JSON string literal (RFC 8259, section 7): between two quotes, unescaped bytes from
  0x20 on other than the quote and the backslash, or a backslash followed by one of
  \<^verbatim>\<open>" \ / b f n r t\<close>, or by \<^verbatim>\<open>u\<close> and four hex digits.
\<close>

definition is_hex :: "byte \<Rightarrow> bool" where
  "is_hex b = (b \<in> set ''0123456789abcdefABCDEF'')"

function json_chars :: "string \<Rightarrow> bool" where
  "json_chars s =
     (case s of
        [] \<Rightarrow> True
      | b # bs \<Rightarrow>
          (if b = CHR 0x5C then
             (case bs of
                [] \<Rightarrow> False
              | e # rest \<Rightarrow>
                  (if e \<in> set [CHR 0x22, CHR 0x5C, CHR ''/'', CHR ''b'', CHR ''f'', CHR ''n'',
                                CHR ''r'', CHR ''t'']
                   then json_chars rest
                   else if e = CHR ''u''
                     then 4 \<le> length rest \<and> list_all is_hex (take 4 rest)
                          \<and> json_chars (drop 4 rest)
                   else False))
           else b \<noteq> CHR 0x22 \<and> 0x20 \<le> (of_char b :: nat) \<and> json_chars bs))"
  by pat_completeness auto
termination
  by (relation "measure length") auto

declare json_chars.simps [simp del]

definition json_string :: "string \<Rightarrow> bool" where
  "json_string q =
     (2 \<le> length q \<and> hd q = CHR 0x22 \<and> last q = CHR 0x22 \<and> json_chars (butlast (tl q)))"

text \<open>
  The indices the packing loops use, in the order of use, and the cursor they leave:
  the loops of \<^term>\<open>put_word\<close> and \<^term>\<open>put_words\<close> without the slice.
\<close>

function word_indices :: "int \<Rightarrow> int \<Rightarrow> int list \<times> int" where
  "word_indices bitCount i =
     (if bitCount > 0 then
        (let i = i - 1;
             (js, i') = word_indices (bitCount - 8) i
         in (i # js, i'))
      else ([], i))"
  by pat_completeness auto
termination
  by (relation "measure (\<lambda>(bitCount, i). nat bitCount)") auto

declare word_indices.simps [simp del]

fun words_indices :: "nat \<Rightarrow> int \<Rightarrow> nat list \<Rightarrow> int list \<times> int" where
  "words_indices intSize i [] = ([], i)"
| "words_indices intSize i (word # ws) =
     (let (js, i1) = word_indices (int intSize) i;
          (ks, i2) = words_indices intSize i1 ws
      in (js @ ks, i2))"

definition pack_indices :: "nat \<Rightarrow> nat \<Rightarrow> nat \<Rightarrow> int \<Rightarrow> int \<Rightarrow> int list" where
  "pack_indices intSize paramLen n r s =
     fst (words_indices intSize (int n) (Bits intSize s))
       @ fst (words_indices intSize (int n - int paramLen) (Bits intSize r))"

section \<open>A concrete environment\<close>

text \<open>
  Modelled from the spec: \<^verbatim>\<open>hashLookup\<close> and the family tables are outside \<^verbatim>\<open>src/\<close>.
  \<^verbatim>\<open>lookup(alg, family)\<close> fails with \<^verbatim>\<open>AlgError{alg}\<close> when \<open>alg\<close> is not a member of the
  family's set: HS256, HS384, HS512 for the MAC family, RS256 to PS512 for RSA, ES256,
  ES384, ES512 for EC. The hash identifiers are those of Go's \<^verbatim>\<open>crypto\<close> package
  (SHA-256 is 5, SHA-384 is 6, SHA-512 is 7).
\<close>

definition family_table :: "family \<Rightarrow> (string \<times> hash) list" where
  "family_table f =
     (case f of
        HMACAlgs \<Rightarrow> [(HS256, 5), (HS384, 6), (HS512, 7)]
      | RSAAlgs \<Rightarrow> [(RS256, 5), (RS384, 6), (RS512, 7), (PS256, 5), (PS384, 6), (PS512, 7)]
      | ECDSAAlgs \<Rightarrow> [(ES256, 5), (ES384, 6), (ES512, 7)])"

definition spec_hashLookup :: "string \<Rightarrow> family \<Rightarrow> hash \<times> error option" where
  "spec_hashLookup alg f =
     (case map_of (family_table f) alg of
        None \<Rightarrow> (0, Some (AlgError alg))
      | Some h \<Rightarrow> (h, None))"

definition sha_Size :: "hash \<Rightarrow> nat" where
  "sha_Size h = (if h = 5 then 32 else if h = 6 then 48 else 64)"

text \<open>
  An environment to run the model on: the claims are taken as already serialised, and
  the primitives return fixed bytes of the length their contracts give.
\<close>

definition env0 :: env where
  "env0 = \<lparr>
     sync = (\<lambda>c alg. (c, None, None)),
     hashLookup = spec_hashLookup,
     hash_Size = sha_Size,
     hash_Sum = (\<lambda>h m. replicate (sha_Size h) (CHR ''d'')),
     hmac_Sum = (\<lambda>h k m. replicate (sha_Size h) (CHR ''m'')),
     rsa_SignPSS = (\<lambda>k h d. (replicate (Size k) (CHR ''p''), None)),
     rsa_SignPKCS1v15 = (\<lambda>k h d. (replicate (Size k) (CHR ''q''), None)),
     ecdsa_Sign = (\<lambda>k d. (258, 3, None)),
     ed25519_Sign = (\<lambda>k m. Some (replicate 64 (CHR ''e''))),
     IntSize = 64,
     isPrint = (\<lambda>r. False)
   \<rparr>"

definition claims0 :: claims where
  "claims0 = \<lparr>Raw = ''{}'', KeyID = []\<rparr>"

definition rsa_key0 :: rsa_PrivateKey where
  "rsa_key0 = \<lparr>Size = 6, rsa_D = 1\<rparr>"

definition ecdsa_key0 :: ecdsa_PrivateKey where
  "ecdsa_key0 = \<lparr>BitSize = 256, ecdsa_D = 1\<rparr>"

section \<open>The encoder against the reference encoding\<close>

lemma upd4_app:
  "length p = k \<Longrightarrow>
   (p @ x0 # x1 # x2 # x3 # r)[k := a, k + 1 := b, k + 2 := c, k + 3 := d] = p @ a # b # c # d # r"
  by (simp add: list_update_append numeral_2_eq_2 numeral_3_eq_3)

lemma split4:
  "k + 4 \<le> length mem \<Longrightarrow>
   mem = take k mem @ mem ! k # mem ! (k + 1) # mem ! (k + 2) # mem ! (k + 3) # drop (k + 4) mem"
proof -
  assume h: "k + 4 \<le> length mem"
  have "drop k mem = mem ! k # drop (Suc k) mem" using h by (simp add: Cons_nth_drop_Suc)
  moreover have "drop (Suc k) mem = mem ! (k+1) # drop (Suc (Suc k)) mem" using h by (simp add: Cons_nth_drop_Suc)
  moreover have "drop (Suc (Suc k)) mem = mem ! (k+2) # drop (Suc (Suc (Suc k))) mem" using h by (simp add: Cons_nth_drop_Suc)
  moreover have "drop (Suc (Suc (Suc k))) mem = mem ! (k+3) # drop (k + 4) mem" using h
    by (simp add: Cons_nth_drop_Suc numeral_eq_Suc)
  ultimately have "drop k mem = mem ! k # mem ! (k + 1) # mem ! (k + 2) # mem ! (k + 3) # drop (k + 4) mem"
    by simp
  then show ?thesis by (metis append_take_drop_id)
qed

lemma upd4:
  assumes "k + 4 \<le> length mem"
  shows "mem[k := a, k + 1 := b, k + 2 := c, k + 3 := d] = take k mem @ a # b # c # d # drop (k + 4) mem"
proof -
  have "length (take k mem) = k" using assms by simp
  from upd4_app[OF this] split4[OF assms] show ?thesis by metis
qed


lemma split3:
  "k + 3 \<le> length mem \<Longrightarrow> drop k mem = mem ! k # mem ! (k + 1) # mem ! (k + 2) # drop (k + 3) mem"
proof -
  assume h: "k + 3 \<le> length mem"
  have "drop k mem = mem ! k # drop (Suc k) mem" using h by (simp add: Cons_nth_drop_Suc)
  moreover have "drop (Suc k) mem = mem ! (k+1) # drop (Suc (Suc k)) mem" using h by (simp add: Cons_nth_drop_Suc)
  moreover have "drop (Suc (Suc k)) mem = mem ! (k+2) # drop (k + 3) mem" using h
    by (simp add: Cons_nth_drop_Suc numeral_eq_Suc)
  ultimately show ?thesis by simp
qed

lemma Encode_loop_correct:
  assumes "n = si + 3 * g"
    and "di + 4 * g \<le> dlen"
    and "d + dlen \<le> length mem"
    and "s + n \<le> length mem"
    and "g > 0 \<longrightarrow> d + di + g \<le> s + si"
  shows "Encode_loop mem (d, dlen) (s, slen) n di si =
           Some (take (d + di) mem @ base64url (take (3 * g) (drop (s + si) mem))
                   @ drop (d + di + 4 * g) mem,
                 di + 4 * g, n)"
  using assms
proof (induction g arbitrary: mem di si)
  case 0
  then show ?case by (simp add: Encode_loop.simps)
next
  case (Suc g)
  define val where "val = byte_at mem (s + si) * 65536 + byte_at mem (s + si + 1) * 256
                     + byte_at mem (s + si + 2)"
  define mem' where "mem' = mem[d + di := enc6 val 18, d + di + 1 := enc6 val 12,
                               d + di + 2 := enc6 val 6, d + di + 3 := enc6 val 0]"
  have wlen: "d + di + 4 \<le> length mem" using Suc.prems by simp
  have rlen: "s + si + 3 \<le> length mem" using Suc.prems by simp
  have gap: "d + di + 4 \<le> s + si + 3" using Suc.prems by simp
  have step: "Encode_loop mem (d, dlen) (s, slen) n di si =
              Encode_loop mem' (d, dlen) (s, slen) n (di + 4) (si + 3)"
    using Suc.prems by (subst Encode_loop.simps) (simp add: Let_def mem'_def val_def add.assoc)
  have mem'_eq: "mem' = take (d + di) mem @ enc6 val 18 # enc6 val 12 # enc6 val 6 # enc6 val 0
                         # drop (d + di + 4) mem"
    unfolding mem'_def by (rule upd4[OF wlen])
  have len': "length mem' = length mem" by (simp add: mem'_def)
  have tk: "take (d + (di + 4)) mem' = take (d + di) mem @ [enc6 val 18, enc6 val 12, enc6 val 6, enc6 val 0]"
    using wlen by (simp add: mem'_eq add.assoc[symmetric])
  have dr: "\<And>m. d + di + 4 \<le> m \<Longrightarrow> drop m mem' = drop m mem"
    by (simp add: mem'_def)
  have ih: "Encode_loop mem' (d, dlen) (s, slen) n (di + 4) (si + 3) =
           Some (take (d + (di + 4)) mem' @ base64url (take (3 * g) (drop (s + (si + 3)) mem'))
                   @ drop (d + (di + 4) + 4 * g) mem',
                 (di + 4) + 4 * g, n)"
    using Suc.prems gap by (intro Suc.IH) (auto simp: len')
  have src: "take (3 * Suc g) (drop (s + si) mem) =
             mem ! (s + si) # mem ! (s + si + 1) # mem ! (s + si + 2) # take (3 * g) (drop (s + si + 3) mem)"
  proof -
    have "3 * Suc g = Suc (Suc (Suc (3 * g)))" by simp
    then show ?thesis by (simp only: split3[OF rlen] take_Suc_Cons)
  qed
  have b: "base64url (take (3 * Suc g) (drop (s + si) mem)) =
           enc6 val 18 # enc6 val 12 # enc6 val 6 # enc6 val 0
             # base64url (take (3 * g) (drop (s + (si + 3)) mem'))"
    using gap by (simp only: src base64url.simps Let_def val_def byte_at_def dr add.assoc[symmetric])
  show ?case
    unfolding step ih tk b using dr[of "d + (di + 4) + 4 * g"]
    by (simp add: add.assoc)
qed

lemma EncodedLen_add3: "EncodedLen (n + 3) = EncodedLen n + 4"
proof -
  have "(n + 3) div 3 = n div 3 + 1" "(n + 3) mod 3 = n mod 3" by simp_all
  then show ?thesis by (simp add: EncodedLen_def)
qed

lemma EncodedLen_small:
  "EncodedLen 0 = 0" "EncodedLen 1 = 2" "EncodedLen 2 = 3" "EncodedLen (Suc 0) = 2"
  by (simp_all add: EncodedLen_def)

lemma EncodedLen_mult3: "EncodedLen (3 * g + r) = 4 * g + EncodedLen r"
proof (induction g)
  case 0
  then show ?case by simp
next
  case (Suc g)
  have e: "3 * Suc g + r = (3 * g + r) + 3" by simp
  have "EncodedLen (3 * Suc g + r) = EncodedLen ((3 * g + r) + 3)" by (simp only: e)
  also have "\<dots> = EncodedLen (3 * g + r) + 4" by (rule EncodedLen_add3)
  finally show ?case using Suc by simp
qed

lemma length_base64url: "length (base64url xs) = EncodedLen (length xs)"
proof (induction xs rule: base64url.induct)
  case (1 a b c rest)
  have "length (a # b # c # rest) = length rest + 3" by simp
  then have "EncodedLen (length (a # b # c # rest)) = EncodedLen (length rest + 3)" by (rule arg_cong)
  also have "\<dots> = EncodedLen (length rest) + 4" by (rule EncodedLen_add3)
  finally show ?case using 1 by (simp add: Let_def)
qed (simp_all add: EncodedLen_def Let_def)

lemma base64url_append:
  "length xs = 3 * g \<Longrightarrow> base64url (xs @ ys) = base64url xs @ base64url ys"
proof (induction g arbitrary: xs)
  case 0
  then show ?case by simp
next
  case (Suc g)
  then obtain a b c rest where xs: "xs = a # b # c # rest" and r: "length rest = 3 * g"
    by (cases xs; cases "tl xs"; cases "tl (tl xs)") auto
  show ?case using Suc.IH[OF r] by (simp add: xs Let_def)
qed


lemma upd2_app:
  "length p = k \<Longrightarrow> (p @ x0 # x1 # r)[k := a, k + 1 := b] = p @ a # b # r"
  by (simp add: list_update_append)

lemma upd3_app:
  "length p = k \<Longrightarrow> (p @ x0 # x1 # x2 # r)[k := a, k + 1 := b, k + 2 := c] = p @ a # b # c # r"
  by (simp add: list_update_append numeral_2_eq_2)

lemma split2:
  "k + 2 \<le> length mem \<Longrightarrow> drop k mem = mem ! k # mem ! (k + 1) # drop (k + 2) mem"
proof -
  assume h: "k + 2 \<le> length mem"
  have "drop k mem = mem ! k # drop (Suc k) mem" using h by (simp add: Cons_nth_drop_Suc)
  moreover have "drop (Suc k) mem = mem ! (k+1) # drop (k + 2) mem" using h by (simp add: Cons_nth_drop_Suc)
  ultimately show ?thesis by simp
qed

lemma nth_splice_hi:
  "length X = m \<Longrightarrow> d + m \<le> i \<Longrightarrow> d + m \<le> length mem \<Longrightarrow>
   (take d mem @ X @ drop (d + m) mem) ! i = mem ! i"
proof -
  assume h: "length X = m" "d + m \<le> i" "d + m \<le> length mem"
  have l: "length (take d mem @ X) = d + m" using h by simp
  have "((take d mem @ X) @ drop (d + m) mem) ! i = drop (d + m) mem ! (i - (d + m))"
    using h(2) by (simp only: nth_append l) simp
  also have "\<dots> = mem ! i" using h by simp
  finally show ?thesis by simp
qed

lemma Encode_correct:
  assumes dl: "EncodedLen n \<le> dlen" and dm: "d + dlen \<le> length mem"
    and sm: "s + n \<le> length mem" and ov: "d + EncodedLen n \<le> s + n"
  shows "Encode mem (d, dlen) (s, n) =
     Some (take d mem @ base64url (take n (drop s mem)) @ drop (d + EncodedLen n) mem)"
proof (cases "n = 0")
  case True
  then show ?thesis by (simp add: Encode_def EncodedLen_small)
next
  case False
  define g where "g = n div 3"
  define r where "r = n mod 3"
  have n: "n = 3 * g + r" and r3: "r < 3" by (simp_all add: g_def r_def)
  have E: "EncodedLen n = 4 * g + EncodedLen r" unfolding n by (rule EncodedLen_mult3)
  have Er: "r \<le> EncodedLen r"
  proof -
    have "r div 3 = 0" "r mod 3 = r" using r3 by simp_all
    then show ?thesis by (simp add: EncodedLen_def)
  qed
  define X where "X = base64url (take (3 * g) (drop s mem))"
  define mem1 where "mem1 = take d mem @ X @ drop (d + 4 * g) mem"
  have lenX: "length X = 4 * g"
    using sm n by (simp add: X_def length_base64url EncodedLen_mult3[of g 0, simplified] EncodedLen_small)
  have dg: "d + g \<le> s" using ov E n Er by simp
  have loop: "Encode_loop mem (d, dlen) (s, n) (n div 3 * 3) 0 0 = Some (mem1, 4 * g, 3 * g)"
  proof -
    have "Encode_loop mem (d, dlen) (s, n) (3 * g) 0 0 =
           Some (take (d + 0) mem @ base64url (take (3 * g) (drop (s + 0) mem))
                   @ drop (d + 0 + 4 * g) mem, 0 + 4 * g, 3 * g)"
      using dl dm sm E n dg by (intro Encode_loop_correct) auto
    then show ?thesis by (simp add: mem1_def X_def g_def mult.commute)
  qed
  have rd: "\<And>i. d + 4 * g \<le> i \<Longrightarrow> mem1 ! i = mem ! i"
    unfolding mem1_def using lenX dm dl E by (intro nth_splice_hi) auto
  consider "r = 0" | "r = 1" | "r = 2" using r3 by linarith
  then show ?thesis
  proof cases
    case 1
    have rem: "n \<le> 3 * g" and n3: "3 * g = n" using n 1 by simp_all
    have res: "Encode mem (d, dlen) (s, n) = Some mem1"
      using False by (simp add: Encode_def loop rem)
    show ?thesis unfolding res by (simp add: mem1_def X_def E 1 EncodedLen_small n3)
  next
    case 2
    define val where "val = byte_at mem (s + 3 * g) * 65536"
    have rem: "n - 3 * g = 1" "\<not> n \<le> 3 * g" using n 2 by simp_all
    have b1: "byte_at mem1 (s + 3 * g) = byte_at mem (s + 3 * g)"
      using dg by (simp add: byte_at_def rd)
    have room: "d + 4 * g + 2 \<le> length mem" using dl dm E 2 by (simp add: EncodedLen_small)
    have res: "Encode mem (d, dlen) (s, n) =
       Some (mem1[d + 4 * g := enc6 val 18, d + 4 * g + 1 := enc6 val 12])"
      using False dl E 2
      by (simp add: Encode_def loop rem b1 val_def Let_def EncodedLen_small)
    have m1: "mem1 = (take d mem @ X) @ mem ! (d + 4 * g) # mem ! (d + 4 * g + 1) # drop (d + 4 * g + 2) mem"
      by (simp add: mem1_def split2[OF room])
    have len: "length (take d mem @ X) = d + 4 * g" using lenX room by simp
    have up: "mem1[d + 4 * g := enc6 val 18, d + 4 * g + 1 := enc6 val 12] =
              (take d mem @ X) @ enc6 val 18 # enc6 val 12 # drop (d + 4 * g + 2) mem"
      by (subst m1) (rule upd2_app[OF len])
    have tk: "take n (drop s mem) = take (3 * g) (drop s mem) @ [mem ! (s + 3 * g)]"
      using sm n 2 by (simp add: take_Suc_conv_app_nth add.commute)
    have l3: "length (take (3 * g) (drop s mem)) = 3 * g" using sm n by simp
    have b: "base64url (take n (drop s mem)) = X @ [enc6 val 18, enc6 val 12]"
      by (simp add: tk base64url_append[OF l3] X_def val_def byte_at_def Let_def)
    show ?thesis unfolding res up b by (simp add: E 2 EncodedLen_small add.assoc)
  next
    case 3
    define val where "val = byte_at mem (s + 3 * g) * 65536 + byte_at mem (s + 3 * g + 1) * 256"
    have rem: "n - 3 * g = 2" "\<not> n \<le> 3 * g" using n 3 by simp_all
    have b1: "byte_at mem1 (s + 3 * g) = byte_at mem (s + 3 * g)"
             "byte_at mem1 (Suc (s + 3 * g)) = byte_at mem (Suc (s + 3 * g))"
      using dg by (simp_all add: byte_at_def rd)
    have room: "d + 4 * g + 3 \<le> length mem" using dl dm E 3 by (simp add: EncodedLen_small)
    have res: "Encode mem (d, dlen) (s, n) =
       Some (mem1[d + 4 * g := enc6 val 18, d + 4 * g + 1 := enc6 val 12, d + 4 * g + 2 := enc6 val 6])"
      using False dl E 3
      by (simp add: Encode_def loop rem b1 val_def Let_def EncodedLen_small)
    have m1: "mem1 = (take d mem @ X) @ mem ! (d + 4 * g) # mem ! (d + 4 * g + 1)
                  # mem ! (d + 4 * g + 2) # drop (d + 4 * g + 3) mem"
      by (simp add: mem1_def split3[OF room])
    have len: "length (take d mem @ X) = d + 4 * g" using lenX room by simp
    have up: "mem1[d + 4 * g := enc6 val 18, d + 4 * g + 1 := enc6 val 12, d + 4 * g + 2 := enc6 val 6] =
              (take d mem @ X) @ enc6 val 18 # enc6 val 12 # enc6 val 6 # drop (d + 4 * g + 3) mem"
      by (subst m1) (rule upd3_app[OF len])
    have tk: "take n (drop s mem) = take (3 * g) (drop s mem) @ [mem ! (s + 3 * g), mem ! (s + 3 * g + 1)]"
    proof -
      have "take n (drop s mem) = take (3 * g) (drop s mem) @ take 2 (drop (3 * g) (drop s mem))"
        unfolding n 3 by (rule take_add)
      moreover have "drop (3 * g) (drop s mem) = drop (s + 3 * g) mem" by (simp add: add.commute)
      moreover have "s + 3 * g + 2 \<le> length mem" using sm n 3 by simp
      ultimately show ?thesis by (simp add: split2 numeral_2_eq_2)
    qed
    have l3: "length (take (3 * g) (drop s mem)) = 3 * g" using sm n by simp
    have b: "base64url (take n (drop s mem)) = X @ [enc6 val 18, enc6 val 12, enc6 val 6]"
      by (simp add: tk base64url_append[OF l3] X_def val_def byte_at_def Let_def)
    show ?thesis unfolding res up b by (simp add: E 3 EncodedLen_small add.assoc)
  qed
qed


lemma Encode_from_correct:
  assumes dl: "EncodedLen (length src) \<le> dlen" and dm: "d + dlen \<le> length mem"
  shows "Encode_from mem (d, dlen) src =
           Some (take d mem @ base64url src @ drop (d + EncodedLen (length src)) mem)"
proof -
  define n where "n = length src"
  define E where "E = EncodedLen (length src)"
  define X where "X = take d mem @ base64url src @ drop (d + E) mem"
  have le: "d + E \<le> length mem" using dl dm by (simp add: E_def)
  have "Encode (mem @ src) (d, dlen) (length mem, n) =
          Some (take d (mem @ src) @ base64url (take n (drop (length mem) (mem @ src)))
                 @ drop (d + EncodedLen n) (mem @ src))"
    using dl dm by (intro Encode_correct) (auto simp: n_def)
  moreover have "take d (mem @ src) = take d mem" using le by simp
  moreover have "drop (d + EncodedLen n) (mem @ src) = drop (d + E) mem @ src"
    using le by (simp add: n_def E_def)
  moreover have "take n (drop (length mem) (mem @ src)) = src" by (simp add: n_def)
  ultimately have e: "Encode (mem @ src) (d, dlen) (length mem, n) = Some (X @ src)"
    by (simp add: X_def)
  have "length X = length mem"
    using le by (simp add: X_def length_base64url E_def)
  then have tk: "take (length mem) (X @ src) = X" by simp
  have "Encode_from mem (d, dlen) src = Some X"
    unfolding Encode_from_def n_def[symmetric] e by (simp only: option.map tk)
  then show ?thesis by (simp only: X_def E_def)
qed


section \<open>What \<^verbatim>\<open>newToken\<close> returns\<close>

lemma Encode_slice_correct:
  assumes "off \<le> len t" and "EncodedLen (length src) \<le> len t - off"
    and "len t \<le> length (arr t)"
  shows "Encode_slice t off src =
     Some (t\<lparr>arr := take off (arr t) @ base64url src
                    @ drop (off + EncodedLen (length src)) (arr t)\<rparr>)"
proof -
  have "Encode_from (arr t) (off, len t - off) src =
          Some (take off (arr t) @ base64url src @ drop (off + EncodedLen (length src)) (arr t))"
    using assms by (intro Encode_from_correct) auto
  then show ?thesis using assms(1) by (simp add: Encode_slice_def)
qed

lemma fixed_header_last:
  "fixed_header alg \<noteq> [] \<Longrightarrow> fixed_header alg = butlast (fixed_header alg) @ [CHR ''.'']"
  by (simp add: fixed_header_def split: if_splits)

lemma newToken_fast:
  assumes "fast_path c alg headerJSON"
  shows "newToken E c alg encSigLen headerJSON =
     Some \<lparr>arr = unsigned_prefix E c alg headerJSON @ replicate (1 + encSigLen) (CHR 0x00),
           len = length (unsigned_prefix E c alg headerJSON), allocs = 1\<rparr>"
proof -
  define fixed where "fixed = fixed_header alg"
  define e where "e = EncodedLen (length (Raw c))"
  define z where "z = CHR 0x00"
  define k where "k = 1 + encSigLen"
  have f: "fixed \<noteq> []" "headerJSON = None" "KeyID c = []"
    using assms by (simp_all add: fast_path_def fixed_def)
  define t1 where "t1 = copy_string (make_slice (length fixed + e) (length fixed + e + k)) fixed"
  have "drop (length fixed) (replicate (length fixed + e + k) z) = replicate (e + k) z"
    by (simp del: replicate.simps)
  then have t1: "t1 = \<lparr>arr = fixed @ replicate (e + k) z, len = length fixed + e, allocs = 1\<rparr>"
    by (simp add: t1_def copy_string_def make_slice_def Let_def z_def min_def del: replicate.simps)
  have n: "newToken E c alg encSigLen headerJSON = Encode_slice t1 (length fixed) (Raw c)"
    using f by (simp add: newToken_def Let_def fixed_def[symmetric] t1_def e_def k_def add.assoc
                     del: replicate.simps)
  have "Encode_slice t1 (length fixed) (Raw c) =
     Some (t1\<lparr>arr := take (length fixed) (arr t1) @ base64url (Raw c)
                    @ drop (length fixed + EncodedLen (length (Raw c))) (arr t1)\<rparr>)"
    by (rule Encode_slice_correct) (simp_all add: t1 e_def)
  also have "\<dots> = Some \<lparr>arr = fixed @ base64url (Raw c) @ replicate k z,
                        len = length fixed + e, allocs = 1\<rparr>"
    by (simp add: t1 e_def del: replicate.simps)
  finally have r: "newToken E c alg encSigLen headerJSON =
      Some \<lparr>arr = fixed @ base64url (Raw c) @ replicate k z,
                        len = length fixed + e, allocs = 1\<rparr>"
    using n by simp
  have "fixed = butlast fixed @ [CHR ''.'']"
    using fixed_header_last[of alg] f(1) by (simp add: fixed_def)
  then have p: "unsigned_prefix E c alg headerJSON = fixed @ base64url (Raw c)"
    using assms by (simp add: unsigned_prefix_def encodedHeader_def fixed_def[symmetric])
  show ?thesis unfolding r p by (simp add: z_def k_def length_base64url e_def)
qed


lemma slowToken_correct:
  "slowToken c encSigLen h =
     Some \<lparr>arr = base64url h @ CHR ''.'' # base64url (Raw c) @ replicate (1 + encSigLen) (CHR 0x00),
           len = length (base64url h @ CHR ''.'' # base64url (Raw c)), allocs = 1\<rparr>"
proof -
  define hl where "hl = EncodedLen (length h)"
  define e where "e = EncodedLen (length (Raw c))"
  define z where "z = CHR 0x00"
  define k where "k = 1 + encSigLen"
  define l where "l = hl + 1 + e"
  define t0 where "t0 = make_slice l (l + 1 + encSigLen)"
  have t0: "t0 = \<lparr>arr = replicate (l + k) z, len = l, allocs = 1\<rparr>"
    by (simp add: t0_def make_slice_def z_def k_def del: replicate.simps)
  have lh: "length (base64url h) = hl" by (simp add: length_base64url hl_def)
  define t1 where "t1 = \<lparr>arr = base64url h @ replicate (1 + e + k) z, len = l, allocs = 1\<rparr>"
  have s1: "Encode_slice t0 0 h = Some t1"
  proof -
    have "Encode_slice t0 0 h =
       Some (t0\<lparr>arr := take 0 (arr t0) @ base64url h @ drop (0 + EncodedLen (length h)) (arr t0)\<rparr>)"
      by (rule Encode_slice_correct) (simp_all add: t0 l_def hl_def)
    moreover have "drop hl (replicate (l + k) z) = replicate (1 + e + k) z"
      by (simp add: l_def del: replicate.simps)
    ultimately show ?thesis by (simp add: t0 t1_def hl_def del: replicate.simps)
  qed
  define t2 where "t2 = \<lparr>arr = base64url h @ CHR ''.'' # replicate (e + k) z, len = l, allocs = 1\<rparr>"
  have s2: "set_byte t1 hl (CHR ''.'') = Some t2"
  proof -
    have "(base64url h @ replicate (1 + e + k) z)[hl := CHR ''.''] =
          base64url h @ CHR ''.'' # replicate (e + k) z"
      by (simp add: list_update_append lh)
    then show ?thesis by (simp add: set_byte_def t1_def t2_def l_def del: replicate.simps)
  qed
  define t3 where "t3 = \<lparr>arr = base64url h @ CHR ''.'' # base64url (Raw c) @ replicate k z,
                          len = l, allocs = 1\<rparr>"
  have s3: "Encode_slice t2 (hl + 1) (Raw c) = Some t3"
  proof -
    have "Encode_slice t2 (hl + 1) (Raw c) =
       Some (t2\<lparr>arr := take (hl + 1) (arr t2) @ base64url (Raw c)
                     @ drop (hl + 1 + EncodedLen (length (Raw c))) (arr t2)\<rparr>)"
      by (rule Encode_slice_correct) (simp_all add: t2_def l_def e_def lh)
    moreover have "take (hl + 1) (base64url h @ CHR ''.'' # replicate (e + k) z)
                     = base64url h @ [CHR ''.'']"
      by (simp add: lh)
    moreover have "drop (hl + 1 + e) (base64url h @ CHR ''.'' # replicate (e + k) z)
                     = replicate k z"
      by (simp add: lh del: replicate.simps)
    ultimately show ?thesis by (simp add: t2_def t3_def e_def del: replicate.simps)
  qed
  have u: "slowToken c encSigLen h =
     (case Encode_slice t0 0 h of
        None \<Rightarrow> None
      | Some token \<Rightarrow>
          (case set_byte token hl (CHR ''.'') of
             None \<Rightarrow> None
           | Some token \<Rightarrow> Encode_slice token (hl + 1) (Raw c)))"
    unfolding slowToken_def Let_def t0_def l_def hl_def e_def by (rule refl)
  have "slowToken c encSigLen h = Some t3"
    by (simp only: u s1 s2 s3 option.case)
  then show ?thesis
    by (simp add: t3_def k_def z_def l_def hl_def length_base64url e_def)
qed

lemma newToken_correct:
  "newToken E c alg encSigLen headerJSON =
     Some \<lparr>arr = unsigned_prefix E c alg headerJSON @ replicate (1 + encSigLen) (CHR 0x00),
           len = length (unsigned_prefix E c alg headerJSON), allocs = 1\<rparr>"
proof (cases "fast_path c alg headerJSON")
  case True
  then show ?thesis by (rule newToken_fast)
next
  case False
  then have "newToken E c alg encSigLen headerJSON =
             slowToken c encSigLen (headerJSON_of E c alg headerJSON)"
    by (auto simp: newToken_def fast_path_def headerJSON_of_def Let_def)
  then show ?thesis using False
    by (simp add: slowToken_correct unsigned_prefix_def encodedHeader_def)
qed


section \<open>Errors leave no token\<close>

text \<open>
  Claim C6. \<^verbatim>\<open>HMACSign\<close> with a secret of length zero returns no token and the error
  \<^verbatim>\<open>errNoSecret\<close>, whatever the algorithm string and the claims are and whatever
  \<^verbatim>\<open>sync\<close> and the algorithm lookup would have answered: the check comes before any
  other work.
\<close>

theorem HMACSign_empty_secret:
  "HMACSign E c alg [] = Return (None, Some errNoSecret)"
  by (simp add: HMACSign_def)

lemma FormatWithoutSign_error:
  "FormatWithoutSign E c alg = Return (tok, Some e) \<Longrightarrow> tok = None"
  by (auto simp: FormatWithoutSign_def split: prod.splits option.splits)

lemma ECDSASign_error:
  "ECDSASign E c alg key = Return (tok, Some e) \<Longrightarrow> tok = None"
  by (auto simp: ECDSASign_def Let_def split: prod.splits option.splits if_splits)

lemma EdDSASign_error:
  "EdDSASign E c key = Return (tok, Some e) \<Longrightarrow> tok = None"
  by (auto simp: EdDSASign_def Let_def split: prod.splits option.splits if_splits)

lemma HMACSign_error:
  "HMACSign E c alg secret = Return (tok, Some e) \<Longrightarrow> tok = None"
  by (auto simp: HMACSign_def Let_def split: prod.splits option.splits if_splits)

lemma RSASign_error:
  "RSASign E c alg key = Return (tok, Some e) \<Longrightarrow> tok = None"
  by (auto simp: RSASign_def Let_def split: prod.splits option.splits if_splits)

text \<open>
  Claim C9. Whenever one of the five operations returns an error (from \<^verbatim>\<open>sync\<close>, from
  the algorithm lookup, the empty secret, or from a signature primitive), the token
  returned with it is \<^verbatim>\<open>nil\<close>.
\<close>

theorem no_token_with_error:
  "(FormatWithoutSign E c alg = Return (tok, Some e) \<longrightarrow> tok = None) \<and>
   (ECDSASign E c alg eckey = Return (tok, Some e) \<longrightarrow> tok = None) \<and>
   (EdDSASign E c edkey = Return (tok, Some e) \<longrightarrow> tok = None) \<and>
   (HMACSign E c alg secret = Return (tok, Some e) \<longrightarrow> tok = None) \<and>
   (RSASign E c alg rsakey = Return (tok, Some e) \<longrightarrow> tok = None)"
  by (intro conjI impI)
     (erule FormatWithoutSign_error ECDSASign_error EdDSASign_error HMACSign_error
        RSASign_error)+

theorem no_token_with_error_witness:
  "RSASign env0 claims0 HS256 rsa_key0 = Return (None, Some (AlgError HS256)) \<and>
   (None :: slice option) = None"
proof -
  have r: "RSASign env0 claims0 HS256 rsa_key0 = Return (None, Some (AlgError HS256))"
    by code_simp
  have "(None :: slice option) = None"
    by (rule no_token_with_error [THEN conjunct2, THEN conjunct2, THEN conjunct2,
          THEN conjunct2, THEN mp, OF r])
  with r show ?thesis by (rule conjI)
qed

section \<open>What the MAC, RSA and EdDSA engines return\<close>

lemma EncodedLen_ge: "n \<le> EncodedLen n"
proof -
  have "n = 3 * (n div 3) + n mod 3" by simp
  moreover have "n mod 3 \<le> (n mod 3 * 8 + 5) div 6" by presburger
  ultimately show ?thesis unfolding EncodedLen_def by linarith
qed

lemma Encode_tail:
  assumes "length Z + length raw = EncodedLen (length raw)"
  shows "Encode (A @ Z @ raw) (length A, EncodedLen (length raw)) (length A + length Z, length raw)
           = Some (A @ base64url raw)"
proof -
  define mem where "mem = A @ Z @ raw"
  have "Encode mem (length A, EncodedLen (length raw)) (length A + length Z, length raw) =
     Some (take (length A) mem @ base64url (take (length raw) (drop (length A + length Z) mem))
             @ drop (length A + EncodedLen (length raw)) mem)"
    using assms by (intro Encode_correct) (auto simp: mem_def)
  moreover have "take (length A) mem = A" by (simp add: mem_def)
  moreover have "drop (length A + length Z) mem = raw" by (simp add: mem_def)
  moreover have "drop (length A + EncodedLen (length raw)) mem = []"
    using assms by (simp add: mem_def)
  ultimately show ?thesis by (simp add: mem_def)
qed

lemma append_byte_token:
  "append_byte \<lparr>arr = P @ replicate (1 + n) z, len = length P, allocs = a\<rparr> b =
     \<lparr>arr = P @ b # replicate n z, len = length P + 1, allocs = a\<rparr>"
  by (simp add: append_byte_def cap_def list_update_append)

lemma Sum_at_tail:
  "length d = length Y \<Longrightarrow> Sum_at (X @ Y) (length X) d = (X @ d, InPlace (length X) (length d))"
  by (simp add: Sum_at_def)

lemma HMACSign_correct:
  assumes ok: "primitives_ok E" and secret: "secret \<noteq> []"
    and sy: "sync E c alg = (c', hj, None)"
    and lk: "hashLookup E alg HMACAlgs = (h, None)"
  shows "HMACSign E c alg secret =
     Return (Some \<lparr>arr = unsigned_prefix E c' alg hj @ CHR ''.''
                      # base64url (hmac_Sum E h secret (unsigned_prefix E c' alg hj)),
                   len = length (unsigned_prefix E c' alg hj) + 1 + EncodedLen (hash_Size E h),
                   allocs = 1\<rparr>, None)"
proof -
  let ?hs = "hash_Size E h"
  let ?n = "EncodedLen (hash_Size E h)"
  define P where "P = unsigned_prefix E c' alg hj"
  let ?mac = "hmac_Sum E h secret P"
  define z where "z = CHR 0x00"
  have lm: "length ?mac = ?hs" using ok by (simp add: primitives_ok_def)
  have hn: "?hs \<le> ?n" by (simp add: EncodedLen_ge)
  define t0 where "t0 = \<lparr>arr = P @ replicate (1 + ?n) z, len = length P, allocs = 1\<rparr>"
  have nt: "newToken E c' alg ?n hj = Some t0"
    by (simp add: newToken_correct t0_def P_def z_def del: replicate.simps)
  define t1 where "t1 = \<lparr>arr = P @ CHR ''.'' # replicate ?n z, len = length P + 1, allocs = 1\<rparr>"
  have ap: "append_byte t0 (CHR ''.'') = t1" unfolding t0_def t1_def by (rule append_byte_token)
  have b0: "bytes_of t0 = P" by (simp add: bytes_of_def t0_def)
  define Z where "Z = replicate (?n - ?hs) z"
  define mem where "mem = (P @ [CHR ''.'']) @ Z @ ?mac"
  define s0 where "s0 = length P + 1 + (?n - ?hs)"
  have c1: "cap t1 = length P + 1 + ?n" by (simp add: cap_def t1_def)
  have l1: "len t1 = length P + 1" by (simp add: t1_def)
  have rz: "replicate ?n z = Z @ replicate ?hs z"
    using hn by (simp add: Z_def flip: replicate_add)
  have a1: "arr t1 = ((P @ [CHR ''.'']) @ Z) @ replicate ?hs z"
    by (simp add: t1_def rz)
  have off: "cap t1 - ?hs = length ((P @ [CHR ''.'']) @ Z)"
    using hn by (simp add: c1 Z_def)
  have "Sum_at (((P @ [CHR ''.'']) @ Z) @ replicate ?hs z) (length ((P @ [CHR ''.'']) @ Z)) ?mac =
          (((P @ [CHR ''.'']) @ Z) @ ?mac, InPlace (length ((P @ [CHR ''.'']) @ Z)) (length ?mac))"
    by (rule Sum_at_tail) (simp add: lm)
  then have su: "Sum_at (arr t1) (cap t1 - ?hs) ?mac = (mem, InPlace s0 ?hs)"
    unfolding a1 off by (simp add: mem_def lm Z_def s0_def)
  have en: "Encode mem (length P + 1, ?n) (length P + 1 + (?n - ?hs), ?hs)
              = Some ((P @ [CHR ''.'']) @ base64url ?mac)"
  proof -
    have "Encode ((P @ [CHR ''.'']) @ Z @ ?mac) (length (P @ [CHR ''.'']), EncodedLen (length ?mac))
            (length (P @ [CHR ''.'']) + length Z, length ?mac)
            = Some ((P @ [CHR ''.'']) @ base64url ?mac)"
      using hn lm by (intro Encode_tail) (simp add: Z_def)
    then show ?thesis using lm by (simp add: mem_def Z_def)
  qed
  have le: "?hs \<le> cap t1" using hn by (simp add: c1)
  have en': "Encode mem (len t1, cap t1 - len t1) (s0, ?hs)
              = Some ((P @ [CHR ''.'']) @ base64url ?mac)"
    using en by (simp add: c1 l1 s0_def)
  have "HMACSign E c alg secret =
          Return (Some (t1\<lparr>arr := (P @ [CHR ''.'']) @ base64url ?mac, len := cap t1\<rparr>), None)"
    using secret
    by (simp add: HMACSign_def sy lk nt Let_def b0 ap le su Encode_source_def en')
  then show ?thesis
    by (simp add: t1_def c1 P_def cap_def)
qed


lemma Sum_at_keeps:
  "Sum_at mem off d = (mem', src) \<Longrightarrow> off \<le> length mem \<Longrightarrow>
   length mem' = length mem \<and> take off mem' = take off mem"
  by (auto simp: Sum_at_def split: if_splits)

lemma take_Suc_update:
  "n < length xs \<Longrightarrow> take (n + 1) (xs[n := x]) = take n xs @ [x]"
  by (simp add: upd_conv_take_nth_drop)

text \<open>The tail of \<^verbatim>\<open>RSASign\<close> and \<^verbatim>\<open>EdDSASign\<close>: the delimiter, then the signature.\<close>

lemma finish_token:
  assumes lm: "length mem = length P + 1 + EncodedLen (length sig)"
    and tk: "take (length P) mem = P"
  shows "\<exists>t1. set_byte \<lparr>arr = mem, len = length mem, allocs = a\<rparr> (length P) (CHR ''.'') = Some t1 \<and>
           Encode_slice t1 (length P + 1) sig =
             Some \<lparr>arr = P @ CHR ''.'' # base64url sig, len = length mem, allocs = a\<rparr>"
proof -
  define t1 where "t1 = \<lparr>arr = mem[length P := CHR ''.''], len = length mem, allocs = a\<rparr>"
  have s: "set_byte \<lparr>arr = mem, len = length mem, allocs = a\<rparr> (length P) (CHR ''.'') = Some t1"
    using lm by (simp add: set_byte_def t1_def)
  have "Encode_slice t1 (length P + 1) sig =
     Some (t1\<lparr>arr := take (length P + 1) (arr t1) @ base64url sig
                    @ drop (length P + 1 + EncodedLen (length sig)) (arr t1)\<rparr>)"
    using lm by (intro Encode_slice_correct) (simp_all add: t1_def)
  moreover have "take (length P + 1) (arr t1) = P @ [CHR ''.'']"
    using lm tk by (simp add: t1_def take_Suc_update del: One_nat_def)
  moreover have "drop (length P + 1 + EncodedLen (length sig)) (arr t1) = []"
    using lm by (simp add: t1_def)
  ultimately have "Encode_slice t1 (length P + 1) sig =
       Some \<lparr>arr = P @ CHR ''.'' # base64url sig, len = length mem, allocs = a\<rparr>"
    by (simp add: t1_def)
  with s show ?thesis by blast
qed

lemma RSASign_correct:
  assumes ok: "primitives_ok E"
    and sy: "sync E c alg = (c', hj, None)"
    and lk: "hashLookup E alg RSAAlgs = (h, None)"
    and sg: "(if alg \<noteq> [] \<and> hd alg = CHR ''P''
              then rsa_SignPSS E key h (hash_Sum E h (unsigned_prefix E c' alg hj))
              else rsa_SignPKCS1v15 E key h (hash_Sum E h (unsigned_prefix E c' alg hj)))
             = (sig, None)"
  shows "RSASign E c alg key =
     Return (Some \<lparr>arr = unsigned_prefix E c' alg hj @ CHR ''.'' # base64url sig,
                   len = length (unsigned_prefix E c' alg hj) + 1 + EncodedLen (Size key),
                   allocs = 1\<rparr>, None)"
proof -
  let ?n = "EncodedLen (Size key)"
  define P where "P = unsigned_prefix E c' alg hj"
  define z where "z = CHR 0x00"
  have ls: "length sig = Size key"
    using ok sg by (auto simp: primitives_ok_def split: if_splits)
  define t0 where "t0 = \<lparr>arr = P @ replicate (1 + ?n) z, len = length P, allocs = 1\<rparr>"
  have nt: "newToken E c' alg ?n hj = Some t0"
    by (simp add: newToken_correct t0_def P_def z_def del: replicate.simps)
  have b0: "bytes_of t0 = P" by (simp add: bytes_of_def t0_def)
  obtain mem buf where su: "Sum_at (arr t0) (len t0) (hash_Sum E h P) = (mem, buf)"
    by (cases "Sum_at (arr t0) (len t0) (hash_Sum E h P)") auto
  have "length mem = length (arr t0) \<and> take (len t0) mem = take (len t0) (arr t0)"
    using su by (rule Sum_at_keeps) (simp add: t0_def)
  then have lm: "length mem = length P + 1 + EncodedLen (length sig)"
    and tk: "take (length P) mem = P"
    by (simp_all add: t0_def ls)
  have c0: "cap t0 = length mem" using lm by (simp add: cap_def t0_def ls)
  define tm where "tm = \<lparr>arr = mem, len = length mem, allocs = 1\<rparr>"
  define tf where "tf = \<lparr>arr = P @ CHR ''.'' # base64url sig, len = length mem, allocs = 1\<rparr>"
  have l0: "len t0 = length P" by (simp add: t0_def)
  obtain t1 where s1: "set_byte tm (len t0) (CHR ''.'') = Some t1"
    and s2: "Encode_slice t1 (Suc (len t0)) sig = Some tf"
    using finish_token[OF lm tk, of 1] unfolding tm_def tf_def l0 by auto
  have upd: "t0\<lparr>arr := mem, len := cap t0\<rparr> = tm"
    by (simp only: c0) (simp add: t0_def tm_def)
  have "RSASign E c alg key = Return (Some tf, None)"
  proof (cases "alg \<noteq> [] \<and> hd alg = CHR ''P''")
    case True
    then have "rsa_SignPSS E key h (hash_Sum E h P) = (sig, None)"
      using sg by (simp add: P_def)
    then show ?thesis using True
      by (simp add: RSASign_def sy lk nt Let_def b0 su upd s1 s2)
  next
    case False
    then have "rsa_SignPKCS1v15 E key h (hash_Sum E h P) = (sig, None)"
      using sg by (auto simp: P_def split: if_splits)
    then show ?thesis using False
      by (auto simp: RSASign_def sy lk nt Let_def b0 su upd s1 s2)
  qed
  then show ?thesis by (simp add: P_def lm ls tf_def)
qed

lemma EdDSASign_correct:
  assumes ok: "primitives_ok E"
    and sy: "sync E c EdDSA = (c', hj, None)"
    and sg: "ed25519_Sign E key (unsigned_prefix E c' EdDSA hj) = Some sig"
  shows "EdDSASign E c key =
     Return (Some \<lparr>arr = unsigned_prefix E c' EdDSA hj @ CHR ''.'' # base64url sig,
                   len = length (unsigned_prefix E c' EdDSA hj) + 1 + EncodedLen 64,
                   allocs = 1\<rparr>, None)"
proof -
  let ?n = "EncodedLen 64"
  define P where "P = unsigned_prefix E c' EdDSA hj"
  define z where "z = CHR 0x00"
  have ls: "length sig = 64" using ok sg by (auto simp: primitives_ok_def)
  define t0 where "t0 = \<lparr>arr = P @ replicate (1 + ?n) z, len = length P, allocs = 1\<rparr>"
  have nt: "newToken E c' EdDSA ?n hj = Some t0"
    by (simp add: newToken_correct t0_def P_def z_def del: replicate.simps)
  have b0: "bytes_of t0 = P" by (simp add: bytes_of_def t0_def)
  define mem where "mem = arr t0"
  have lm: "length mem = length P + 1 + EncodedLen (length sig)"
    and tk: "take (length P) mem = P"
    by (simp_all add: mem_def t0_def ls)
  have c0: "cap t0 = length mem" by (simp add: cap_def mem_def)
  define tm where "tm = \<lparr>arr = mem, len = length mem, allocs = 1\<rparr>"
  define tf where "tf = \<lparr>arr = P @ CHR ''.'' # base64url sig, len = length mem, allocs = 1\<rparr>"
  have l0: "len t0 = length P" by (simp add: t0_def)
  obtain t1 where s1: "set_byte tm (len t0) (CHR ''.'') = Some t1"
    and s2: "Encode_slice t1 (Suc (len t0)) sig = Some tf"
    using finish_token[OF lm tk, of 1] unfolding tm_def tf_def l0 by auto
  have upd: "t0\<lparr>len := cap t0\<rparr> = tm"
    by (simp only: c0) (simp add: t0_def mem_def tm_def)
  have "EdDSASign E c key = Return (Some tf, None)"
    using sg
    by (simp add: EdDSASign_def sy nt Let_def b0 upd s1 s2 P_def[symmetric])
  then show ?thesis by (simp add: P_def lm ls tf_def)
qed


section \<open>The word-chunked packing against the byte-oriented one\<close>

lemma put_word_bytes:
  "B \<le> k \<Longrightarrow> k \<le> length sig \<Longrightarrow>
   put_word (8 * int B) (sig, int k) w =
     Some (take (k - B) sig @ be_bytes B w @ drop k sig, int k - int B)"
proof (induction B arbitrary: sig k w)
  case 0
  then show ?case by (simp add: put_word.simps)
next
  case (Suc B)
  then obtain j where k: "k = Suc j" by (cases k) auto
  define sig1 where "sig1 = sig[j := char_of w]"
  have jl: "j < length sig" and Bj: "B \<le> j" using Suc.prems k by simp_all
  have step: "put_word (8 * int (Suc B)) (sig, int k) w = put_word (8 * int B) (sig1, int j) (w div 256)"
    using jl by (subst put_word.simps) (simp add: k Let_def sig1_def)
  have ih: "put_word (8 * int B) (sig1, int j) (w div 256) =
     Some (take (j - B) sig1 @ be_bytes B (w div 256) @ drop j sig1, int j - int B)"
    using Bj jl by (intro Suc.IH) (simp_all add: sig1_def)
  have t: "take (j - B) sig1 = take (Suc j - Suc B) sig" by (simp add: sig1_def)
  have d: "drop j sig1 = char_of w # drop (Suc j) sig"
    using jl by (simp add: sig1_def upd_conv_take_nth_drop)
  show ?case unfolding step ih t d by (simp add: k)
qed

lemma put_words_bytes:
  "B * length ws \<le> k \<Longrightarrow> k \<le> length sig \<Longrightarrow>
   put_words (8 * B) (sig, int k) ws =
     Some (take (k - B * length ws) sig @ concat (map (be_bytes B) (rev ws)) @ drop k sig,
           int k - int (B * length ws))"
proof (induction ws arbitrary: sig k)
  case Nil
  then show ?case by simp
next
  case (Cons w ws)
  define sig1 where "sig1 = take (k - B) sig @ be_bytes B w @ drop k sig"
  have lb: "length (be_bytes B w) = B" for w by (induction B arbitrary: w) simp_all
  have Bk: "B \<le> k" "B * length ws \<le> k - B" using Cons.prems by simp_all
  have l1: "length sig1 = length sig" using Bk Cons.prems by (simp add: sig1_def lb)
  have pw: "put_word (8 * int B) (sig, int k) w = Some (sig1, int (k - B))"
    using put_word_bytes[of B k sig w] Bk Cons.prems by (simp add: sig1_def)
  have ih: "put_words (8 * B) (sig1, int (k - B)) ws =
     Some (take (k - B - B * length ws) sig1 @ concat (map (be_bytes B) (rev ws)) @ drop (k - B) sig1,
           int (k - B) - int (B * length ws))"
    using Bk Cons.prems by (intro Cons.IH) (simp_all add: l1)
  have t: "take (k - B - B * length ws) sig1 = take (k - B * length (w # ws)) sig"
    using Bk Cons.prems by (simp add: sig1_def)
  have d: "drop (k - B) sig1 = be_bytes B w @ drop k sig"
    using Bk Cons.prems by (simp add: sig1_def)
  have "put_words (8 * B) (sig, int k) (w # ws) = put_words (8 * B) (sig1, int (k - B)) ws"
    by (simp add: pw)
  also note ih
  finally have r: "put_words (8 * B) (sig, int k) (w # ws) =
     Some (take (k - B - B * length ws) sig1 @ concat (map (be_bytes B) (rev ws)) @ drop (k - B) sig1,
           int (k - B) - int (B * length ws))" .
  have c: "concat (map (be_bytes B) (rev (w # ws))) = concat (map (be_bytes B) (rev ws)) @ be_bytes B w"
    by simp
  have i: "int (k - B) - int (B * length ws) = int k - int (B * length (w # ws))"
    using Bk by (simp add: algebra_simps of_nat_diff)
  show ?case unfolding r t d c i by simp
qed


lemma length_be_bytes: "length (be_bytes n x) = n"
  by (induction n arbitrary: x) simp_all

lemma be_bytes_append:
  "be_bytes (n + m) x = be_bytes n (x div 256 ^ m) @ be_bytes m x"
proof (induction m arbitrary: x)
  case 0
  then show ?case by simp
next
  case (Suc m)
  have "x div 256 div 256 ^ m = x div 256 ^ Suc m" by (simp add: div_mult2_eq)
  then show ?case using Suc[of "x div 256"] by simp
qed

lemma be_bytes_mod: "be_bytes m (x mod 256 ^ m) = be_bytes m x"
proof (induction m arbitrary: x)
  case 0
  then show ?case by simp
next
  case (Suc m)
  have a: "x mod 256 ^ Suc m div 256 = x div 256 mod 256 ^ m"
    by (simp add: mod_mult2_eq)
  have "x mod 256 ^ Suc m mod 256 = x mod 256"
    by (simp add: mod_mod_cancel)
  then have b: "char_of (x mod 256 ^ Suc m) = char_of x"
    by (metis char_of_mod_256)
  show ?case using Suc[of "x div 256"] by (simp only: be_bytes.simps a b)
qed

lemma char_of_zero: "char_of (0::nat) = CHR 0x00"
  by (simp add: char_of_def)

lemma be_bytes_zero: "be_bytes k 0 = replicate k (CHR 0x00)"
  by (induction k) (simp_all add: replicate_append_same char_of_zero)

lemma be_bytes_pad:
  "x < 256 ^ n \<Longrightarrow> be_bytes (k + n) x = replicate k (CHR 0x00) @ be_bytes n x"
  by (simp add: be_bytes_append be_bytes_zero)

lemma words_of_be:
  "0 < B \<Longrightarrow>
   concat (map (be_bytes B) (rev (words_of (8 * B) x))) =
     be_bytes (length (words_of (8 * B) x) * B) x"
proof (induction "8 * B" x rule: words_of.induct)
  case (1 x)
  show ?case
  proof (cases "x = 0")
    case True
    then show ?thesis by (simp add: words_of.simps)
  next
    case False
    have p: "(2::nat) ^ (8 * B) = 256 ^ B" by (simp add: power_mult)
    have w: "words_of (8 * B) x = x mod 256 ^ B # words_of (8 * B) (x div 256 ^ B)"
      using False 1(2) by (subst words_of.simps) (simp add: p)
    have ih: "concat (map (be_bytes B) (rev (words_of (8 * B) (x div 256 ^ B)))) =
              be_bytes (length (words_of (8 * B) (x div 256 ^ B)) * B) (x div 256 ^ B)"
      using 1(1)[OF _ 1(2)] False 1(2) by (simp add: p)
    show ?thesis
      by (simp add: w ih be_bytes_mod be_bytes_append[symmetric] add.commute)
  qed
qed

lemma words_of_bound:
  "0 < w \<Longrightarrow> x < (2 ^ w) ^ length (words_of w x)"
proof (induction w x rule: words_of.induct)
  case (1 w x)
  show ?case
  proof (cases "x = 0")
    case True
    then show ?thesis by simp
  next
    case False
    have w: "words_of w x = x mod 2 ^ w # words_of w (x div 2 ^ w)"
      using False 1(2) by (subst words_of.simps) simp
    have "x div 2 ^ w < (2 ^ w) ^ length (words_of w (x div 2 ^ w))"
      using 1 False by simp
    then have "x < 2 ^ w * (2 ^ w) ^ length (words_of w (x div 2 ^ w))"
      by (simp add: less_mult_imp_div_less mult.commute div_less_iff_less_mult)
    then show ?thesis by (simp add: w)
  qed
qed

lemma words_of_length:
  "0 < w \<Longrightarrow> x < (2 ^ w) ^ m \<Longrightarrow> length (words_of w x) \<le> m"
proof (induction m arbitrary: x)
  case 0
  then show ?case by (simp add: words_of.simps)
next
  case (Suc m)
  show ?case
  proof (cases "x = 0")
    case True
    then show ?thesis by (simp add: words_of.simps)
  next
    case False
    have w: "words_of w x = x mod 2 ^ w # words_of w (x div 2 ^ w)"
      using False Suc.prems by (subst words_of.simps) simp
    have "x div 2 ^ w < (2 ^ w) ^ m"
      using Suc.prems by (simp add: less_mult_imp_div_less mult.commute)
    then show ?thesis using Suc.IH Suc.prems(1) by (simp add: w)
  qed
qed


lemma words_of_bytes_le:
  assumes B: "0 < B" and x: "x < 256 ^ p"
  shows "length (words_of (8 * B) x) * B < p + B"
proof -
  define m where "m = (p + B - 1) div B"
  have pm: "p \<le> B * m"
  proof -
    have "p + B - 1 = B * m + (p + B - 1) mod B" by (simp add: m_def)
    moreover have "(p + B - 1) mod B < B" using B by simp
    ultimately show ?thesis by linarith
  qed
  have mB: "m * B < p + B"
  proof -
    have "B * m \<le> p + B - 1" by (simp add: m_def)
    then show ?thesis using B by (simp add: mult.commute)
  qed
  have "(256::nat) ^ p \<le> 256 ^ (B * m)" using pm by (intro power_increasing) simp_all
  then have "x < (2 ^ (8 * B)) ^ m" using x by (simp add: power_mult)
  then have "length (words_of (8 * B) x) \<le> m" using B by (intro words_of_length) simp_all
  then have "length (words_of (8 * B) x) * B \<le> m * B" by simp
  then show ?thesis using mB by linarith
qed

lemma put_words_zero:
  assumes B: "0 < B" and x: "x < 256 ^ p"
    and nb: "nb = length (words_of (8 * B) x) * B"
    and k: "nb \<le> k" "p \<le> k" "k \<le> length sig"
    and z: "take k sig = replicate k (CHR 0x00)"
  shows "put_words (8 * B) (sig, int k) (words_of (8 * B) x) =
           Some (replicate (k - p) (CHR 0x00) @ be_bytes p x @ drop k sig, int k - int nb)"
proof -
  define z0 where "z0 = CHR 0x00"
  have r: "put_words (8 * B) (sig, int k) (words_of (8 * B) x) =
     Some (take (k - nb) sig @ be_bytes nb x @ drop k sig, int k - int nb)"
    using put_words_bytes[of B "words_of (8 * B) x" k sig] k words_of_be[OF B, of x]
    by (simp add: nb mult.commute)
  have t: "take (k - nb) sig = replicate (k - nb) z0"
  proof -
    have "take (k - nb) sig = take (k - nb) (take k sig)" by simp
    also have "\<dots> = replicate (k - nb) z0" unfolding z by (simp add: z0_def)
    finally show ?thesis .
  qed
  have "replicate (k - nb) z0 @ be_bytes nb x = replicate (k - p) z0 @ be_bytes p x"
  proof (cases "p \<le> nb")
    case True
    have "be_bytes nb x = replicate (nb - p) z0 @ be_bytes p x"
      using be_bytes_pad[OF x, of "nb - p"] True by (simp add: z0_def)
    moreover have "replicate (k - nb) z0 @ replicate (nb - p) z0 = replicate (k - p) z0"
      using True k by (simp flip: replicate_add)
    ultimately show ?thesis by simp
  next
    case False
    have "x < (2 ^ (8 * B)) ^ length (words_of (8 * B) x)"
      using B by (intro words_of_bound) simp
    moreover have "(2::nat) ^ (8 * B) = 256 ^ B" by (simp add: power_mult)
    ultimately have "x < (256 ^ B) ^ length (words_of (8 * B) x)" by (simp only:)
    then have "x < 256 ^ nb" by (simp only: nb power_mult mult.commute[of _ B])
    then have "be_bytes p x = replicate (p - nb) z0 @ be_bytes nb x"
      using be_bytes_pad[of x nb "p - nb"] False by (simp add: z0_def)
    moreover have "replicate (k - p) z0 @ replicate (p - nb) z0 = replicate (k - nb) z0"
      using False k by (simp flip: replicate_add)
    ultimately show ?thesis by (metis append_assoc)
  qed
  then show ?thesis unfolding r t by (simp add: z0_def)
qed

lemma pack_signature_correct:
  assumes B: "0 < B" and r: "\<bar>r\<bar> < 256 ^ p" and s: "\<bar>s\<bar> < 256 ^ p"
    and room: "2 * p + B \<le> n + 1"
  shows "pack_signature (8 * B) p (replicate n (CHR 0x00)) r s =
           Some (replicate (n - 2 * p) (CHR 0x00) @ be_bytes p (nat \<bar>r\<bar>) @ be_bytes p (nat \<bar>s\<bar>))"
proof -
  define z0 where "z0 = CHR 0x00"
  define x where "x = nat \<bar>s\<bar>"
  define y where "y = nat \<bar>r\<bar>"
  have xb: "x < 256 ^ p" and yb: "y < 256 ^ p"
    using r s by (simp_all add: x_def y_def nat_less_iff)
  define nbx where "nbx = length (words_of (8 * B) x) * B"
  define nby where "nby = length (words_of (8 * B) y) * B"
  have nx: "nbx < p + B" and ny: "nby < p + B"
    using words_of_bytes_le[OF B xb] words_of_bytes_le[OF B yb] by (simp_all add: nbx_def nby_def)
  define sig1 where "sig1 = replicate (n - p) z0 @ be_bytes p x"
  have s1: "put_words (8 * B) (replicate n z0, int n) (words_of (8 * B) x) =
              Some (sig1, int n - int nbx)"
  proof -
    have "put_words (8 * B) (replicate n z0, int n) (words_of (8 * B) x) =
           Some (replicate (n - p) (CHR 0x00) @ be_bytes p x @ drop n (replicate n z0), int n - int nbx)"
      using nx room by (intro put_words_zero[OF B xb nbx_def]) (simp_all add: z0_def)
    then show ?thesis by (simp add: sig1_def z0_def)
  qed
  have l1: "length sig1 = n" using room B by (simp add: sig1_def length_be_bytes)
  have s2: "put_words (8 * B) (sig1, int (length sig1) - int p) (words_of (8 * B) y) =
              Some (replicate (n - 2 * p) z0 @ be_bytes p y @ be_bytes p x, int (n - p) - int nby)"
  proof -
    have "put_words (8 * B) (sig1, int (n - p)) (words_of (8 * B) y) =
           Some (replicate (n - p - p) (CHR 0x00) @ be_bytes p y @ drop (n - p) sig1, int (n - p) - int nby)"
      using ny room B by (intro put_words_zero[OF B yb nby_def]) (simp_all add: z0_def sig1_def l1[unfolded sig1_def])
    moreover have "int (length sig1) - int p = int (n - p)" using room B by (simp add: l1)
    moreover have "drop (n - p) sig1 = be_bytes p x" by (simp add: sig1_def)
    moreover have "n - p - p = n - 2 * p" by simp
    ultimately show ?thesis by (simp add: z0_def)
  qed
  show ?thesis
    unfolding pack_signature_def Bits_def x_def[symmetric] y_def[symmetric] z0_def[symmetric]
    by (simp add: s1 s2)
qed


section \<open>What the ECDSA engine returns\<close>

lemma put_word_length:
  "put_word bitCount st w = Some st' \<Longrightarrow> length (fst st') = length (fst st)"
proof (induction bitCount st w rule: put_word.induct)
  case (1 bitCount sig i word)
  show ?case
  proof (cases "bitCount > 0")
    case True
    with "1.prems" have ok: "0 \<le> i - 1 \<and> i - 1 < int (length sig)"
      and rec: "put_word (bitCount - 8) (sig[nat (i - 1) := char_of word], i - 1) (word div 256) = Some st'"
      by (auto simp: put_word.simps[of bitCount] Let_def split: if_splits)
    from "1.IH"[OF True refl ok rec] show ?thesis by simp
  next
    case False
    with "1.prems" show ?thesis by (simp add: put_word.simps[of bitCount])
  qed
qed

lemma put_words_length:
  "put_words W st ws = Some st' \<Longrightarrow> length (fst st') = length (fst st)"
proof (induction ws arbitrary: st)
  case Nil
  then show ?case by simp
next
  case (Cons w ws)
  then obtain st1 where a: "put_word (int W) st w = Some st1" and b: "put_words W st1 ws = Some st'"
    by (auto split: option.splits)
  from Cons.IH[OF b] put_word_length[OF a] show ?case by simp
qed

lemma pack_signature_length:
  "pack_signature W p sig r s = Some sig' \<Longrightarrow> length sig' = length sig"
proof -
  assume h: "pack_signature W p sig r s = Some sig'"
  then obtain sig1 i1 i2 where
    a: "put_words W (sig, int (length sig)) (Bits W s) = Some (sig1, i1)" and
    b: "put_words W (sig1, int (length sig1) - int p) (Bits W r) = Some (sig', i2)"
    by (auto simp: pack_signature_def split: option.splits prod.splits)
  from put_words_length[OF a] put_words_length[OF b] show ?thesis by simp
qed

lemma ECDSASign_unfold:
  assumes sy: "sync E c alg = (c', hj, None)"
    and lk: "hashLookup E alg ECDSAAlgs = (h, None)"
    and sg: "ecdsa_Sign E key (hash_Sum E h (unsigned_prefix E c' alg hj)) = (r, s, None)"
    and p: "p = (BitSize key + 7) div 8"
    and n: "n = EncodedLen (2 * p)"
  shows "ECDSASign E c alg key =
     (case pack_signature (IntSize E) p (replicate n (CHR 0x00)) r s of
        None \<Rightarrow> Panic
      | Some sig \<Rightarrow>
          Return (Some \<lparr>arr = unsigned_prefix E c' alg hj @ CHR ''.''
                           # base64url (drop (n - 2 * p) sig),
                        len = length (unsigned_prefix E c' alg hj) + 1 + n,
                        allocs = 1\<rparr>, None))"
proof -
  define P where "P = unsigned_prefix E c' alg hj"
  define z where "z = CHR 0x00"
  define t0 where "t0 = \<lparr>arr = P @ replicate (1 + n) z, len = length P, allocs = 1\<rparr>"
  have nt: "newToken E c' alg (EncodedLen (p * 2)) hj = Some t0"
    by (simp add: newToken_correct t0_def P_def z_def n mult.commute del: replicate.simps)
  define t1 where "t1 = \<lparr>arr = P @ CHR ''.'' # replicate n z, len = length P + 1, allocs = 1\<rparr>"
  have ap: "append_byte t0 (CHR ''.'') = t1" unfolding t0_def t1_def by (rule append_byte_token)
  have b0: "bytes_of t0 = P" by (simp add: bytes_of_def t0_def)
  have sg': "ecdsa_Sign E key (hash_Sum E h P) = (r, s, None)" using sg by (simp add: P_def)
  have tail: "drop (len t1) (arr t1) = replicate n z" by (simp add: t1_def)
  have pre: "take (len t1) (arr t1) = P @ [CHR ''.'']" by (simp add: t1_def)
  have c1: "cap t1 = length P + 1 + n" by (simp add: cap_def t1_def)
  show ?thesis
  proof (cases "pack_signature (IntSize E) p (replicate n z) r s")
    case None
    then show ?thesis
      by (simp add: ECDSASign_def sy lk p[symmetric] nt Let_def b0 ap sg' tail z_def)
  next
    case (Some sig)
    have ls: "length sig = n" using pack_signature_length[OF Some] by simp
    have pn: "2 * p \<le> n" by (simp add: n EncodedLen_ge)
    define Z where "Z = take (n - 2 * p) sig"
    define raw where "raw = drop (n - 2 * p) sig"
    have lr: "length raw = 2 * p" and lz: "length Z = n - 2 * p"
      using pn by (simp_all add: raw_def Z_def ls)
    have "Encode ([] @ Z @ raw) (length ([] :: bytes), EncodedLen (length raw))
            (length ([] :: bytes) + length Z, length raw) = Some ([] @ base64url raw)"
      using pn by (intro Encode_tail) (simp add: lr lz n)
    then have "Encode ([] @ Z @ raw) (0, EncodedLen (2 * p)) (0 + (n - 2 * p), 2 * p)
                 = Some ([] @ base64url raw)"
      unfolding lr lz by simp
    moreover have "Z @ raw = sig" by (simp add: Z_def raw_def)
    ultimately have en: "Encode sig (0, n) (n - 2 * p, 2 * p) = Some (base64url raw)"
      by (simp add: n)
    have "ECDSASign E c alg key =
            Return (Some (t1\<lparr>arr := take (len t1) (arr t1) @ base64url raw, len := cap t1\<rparr>), None)"
      using pn by (simp add: ECDSASign_def sy lk p[symmetric] nt Let_def b0 ap sg' tail Some ls en)
    then show ?thesis
      by (simp add: Some[unfolded z_def] raw_def cap_def t1_def P_def)
  qed
qed


section \<open>The header segment\<close>

lemma quote_loop_plain:
  "list_all plain_ascii s \<Longrightarrow> quote_loop tab buf s = buf @ s"
proof (induction s arbitrary: buf)
  case Nil
  then show ?case by (simp add: quote_loop.simps)
next
  case (Cons b bs)
  then have p: "plain_ascii b" and ps: "list_all plain_ascii bs" by simp_all
  have r: "(of_char b :: nat) < 0x80" "(of_char b :: nat) \<noteq> RuneError"
    using p by (simp_all add: plain_ascii_def RuneError_def)
  have e: "appendEscapedRune tab buf (of_char b) [b] = buf @ [b]"
    using p by (simp add: appendEscapedRune_def plain_ascii_def IsPrint_def)
  have "quote_loop tab buf (b # bs) = quote_loop tab (buf @ [b]) bs"
    using r by (subst quote_loop.simps) (simp add: e)
  then show ?case using Cons.IH[OF ps] by simp
qed

lemma AppendQuote_plain:
  "list_all plain_ascii s \<Longrightarrow> AppendQuote tab buf s = buf @ CHR 0x22 # s @ [CHR 0x22]"
  by (simp add: AppendQuote_def quote_loop_plain)

lemma buildHeaderJSON_alg:
  \<open>KeyID c = [] \<Longrightarrow> list_all plain_ascii alg \<Longrightarrow>
   buildHeaderJSON E c alg = ''{"alg":"'' @ alg @ ''"}''\<close>
  by (simp add: buildHeaderJSON_def AppendQuote_plain)

lemma buildHeaderJSON_kid:
  \<open>KeyID c \<noteq> [] \<Longrightarrow> list_all plain_ascii (KeyID c) \<Longrightarrow> list_all plain_ascii alg \<Longrightarrow>
   buildHeaderJSON E c alg = ''{"kid":"'' @ KeyID c @ ''","alg":"'' @ alg @ ''"}''\<close>
  by (simp add: buildHeaderJSON_def AppendQuote_plain)

lemma fixed_algs_plain: "alg \<in> set fixed_algs \<Longrightarrow> list_all plain_ascii alg"
  by (auto simp: fixed_algs_def plain_ascii_def EdDSA_def ES256_def ES384_def ES512_def
        HS256_def HS384_def HS512_def PS256_def PS384_def PS512_def RS256_def RS384_def RS512_def)

lemma fixed_header_EdDSA: \<open>fixed_header EdDSA = base64url (''{"alg":"'' @ EdDSA @ ''"}'') @ ''.''\<close>
  by code_simp
lemma fixed_header_ES256: \<open>fixed_header ES256 = base64url (''{"alg":"'' @ ES256 @ ''"}'') @ ''.''\<close>
  by code_simp
lemma fixed_header_ES384: \<open>fixed_header ES384 = base64url (''{"alg":"'' @ ES384 @ ''"}'') @ ''.''\<close>
  by code_simp
lemma fixed_header_ES512: \<open>fixed_header ES512 = base64url (''{"alg":"'' @ ES512 @ ''"}'') @ ''.''\<close>
  by code_simp
lemma fixed_header_HS256: \<open>fixed_header HS256 = base64url (''{"alg":"'' @ HS256 @ ''"}'') @ ''.''\<close>
  by code_simp
lemma fixed_header_HS384: \<open>fixed_header HS384 = base64url (''{"alg":"'' @ HS384 @ ''"}'') @ ''.''\<close>
  by code_simp
lemma fixed_header_HS512: \<open>fixed_header HS512 = base64url (''{"alg":"'' @ HS512 @ ''"}'') @ ''.''\<close>
  by code_simp
lemma fixed_header_PS256: \<open>fixed_header PS256 = base64url (''{"alg":"'' @ PS256 @ ''"}'') @ ''.''\<close>
  by code_simp
lemma fixed_header_PS384: \<open>fixed_header PS384 = base64url (''{"alg":"'' @ PS384 @ ''"}'') @ ''.''\<close>
  by code_simp
lemma fixed_header_PS512: \<open>fixed_header PS512 = base64url (''{"alg":"'' @ PS512 @ ''"}'') @ ''.''\<close>
  by code_simp
lemma fixed_header_RS256: \<open>fixed_header RS256 = base64url (''{"alg":"'' @ RS256 @ ''"}'') @ ''.''\<close>
  by code_simp
lemma fixed_header_RS384: \<open>fixed_header RS384 = base64url (''{"alg":"'' @ RS384 @ ''"}'') @ ''.''\<close>
  by code_simp
lemma fixed_header_RS512: \<open>fixed_header RS512 = base64url (''{"alg":"'' @ RS512 @ ''"}'') @ ''.''\<close>
  by code_simp

lemma fixed_header_base64url:
  \<open>alg \<in> set fixed_algs \<Longrightarrow> fixed_header alg = base64url (''{"alg":"'' @ alg @ ''"}'') @ ''.''\<close>
  unfolding fixed_algs_def
  using fixed_header_EdDSA fixed_header_ES256 fixed_header_ES384 fixed_header_ES512
    fixed_header_HS256 fixed_header_HS384 fixed_header_HS512
    fixed_header_PS256 fixed_header_PS384 fixed_header_PS512
    fixed_header_RS256 fixed_header_RS384 fixed_header_RS512
  by auto

lemma fixed_header_nonempty_iff: "fixed_header alg \<noteq> [] \<longleftrightarrow> alg \<in> set fixed_algs"
  by (auto simp: fixed_header_def fixed_algs_def)


text \<open>
  Claim C2. For each of the thirteen identifiers of the fixed table and an empty key id,
  the constant of the fast path is the base64url encoding of exactly
  \<^verbatim>\<open>{"alg":"<ALG>"}\<close>, followed by the delimiter; that JSON is what the general path
  builds for the same input; and the token the fast path returns is the token the
  general path would return.
\<close>

theorem fixed_header_is_slow_path:
  assumes "alg \<in> set fixed_algs" and "KeyID c = []"
  shows \<open>buildHeaderJSON E c alg = ''{"alg":"'' @ alg @ ''"}'' \<and>
         fixed_header alg = base64url (buildHeaderJSON E c alg) @ ''.'' \<and>
         newToken E c alg encSigLen None = slowToken c encSigLen (buildHeaderJSON E c alg)\<close>
proof -
  have j: \<open>buildHeaderJSON E c alg = ''{"alg":"'' @ alg @ ''"}''\<close>
    using assms by (intro buildHeaderJSON_alg fixed_algs_plain)
  have f: "fixed_header alg = base64url (buildHeaderJSON E c alg) @ ''.''"
    unfolding j using assms(1) by (rule fixed_header_base64url)
  have fp: "fast_path c alg None"
    using assms by (simp add: fast_path_def fixed_header_nonempty_iff)
  have "butlast (fixed_header alg) = base64url (buildHeaderJSON E c alg)"
    by (simp add: f butlast_append)
  then have "unsigned_prefix E c alg None
               = base64url (buildHeaderJSON E c alg) @ CHR ''.'' # base64url (Raw c)"
    using fp by (simp add: unsigned_prefix_def encodedHeader_def)
  then have "newToken E c alg encSigLen None = slowToken c encSigLen (buildHeaderJSON E c alg)"
    by (simp add: newToken_correct slowToken_correct del: replicate.simps)
  with j f show ?thesis by blast
qed

theorem fixed_header_is_slow_path_witness:
  \<open>buildHeaderJSON env0 claims0 HS256 = ''{"alg":"'' @ HS256 @ ''"}'' \<and>
   fixed_header HS256 = base64url (buildHeaderJSON env0 claims0 HS256) @ ''.'' \<and>
   newToken env0 claims0 HS256 43 None = slowToken claims0 43 (buildHeaderJSON env0 claims0 HS256)\<close>
proof -
  have a: "HS256 \<in> set fixed_algs" by (simp add: fixed_algs_def)
  have b: "KeyID claims0 = []" by (simp add: claims0_def)
  show ?thesis by (rule fixed_header_is_slow_path [OF a b])
qed

lemma header_k1:
  \<open>buildHeaderJSON E \<lparr>Raw = raw, KeyID = ''k1''\<rparr> HS256 = ''{"kid":"k1","alg":"HS256"}''\<close>
proof -
  have "list_all plain_ascii ''k1''" "list_all plain_ascii HS256"
    by (simp_all add: plain_ascii_def HS256_def)
  then show ?thesis by (simp add: buildHeaderJSON_kid HS256_def)
qed

text \<open>
  Claim C5, at the key id that is the single byte 0x07 (the bell character): the header
  that \<^verbatim>\<open>newToken\<close> builds holds the Go escape \<^verbatim>\<open>\a\<close>, and the quoted key id is not a JSON
  string literal.
\<close>

theorem header_bell_not_json:
  \<open>buildHeaderJSON E \<lparr>Raw = raw, KeyID = [CHR 0x07]\<rparr> HS256
     = [CHR ''{'', CHR 0x22, CHR ''k'', CHR ''i'', CHR ''d'', CHR 0x22, CHR '':'',
        CHR 0x22, CHR 0x5C, CHR ''a'', CHR 0x22,
        CHR '','', CHR 0x22, CHR ''a'', CHR ''l'', CHR ''g'', CHR 0x22, CHR '':'',
        CHR 0x22, CHR ''H'', CHR ''S'', CHR ''2'', CHR ''5'', CHR ''6'', CHR 0x22, CHR ''}''] \<and>
   AppendQuote (isPrint E) [] [CHR 0x07] = [CHR 0x22, CHR 0x5C, CHR ''a'', CHR 0x22] \<and>
   \<not> json_string (AppendQuote (isPrint E) [] [CHR 0x07])\<close>
proof -
  have q: "AppendQuote tab buf [CHR 0x07] = buf @ [CHR 0x22, CHR 0x5C, CHR ''a'', CHR 0x22]" for tab buf
    by (simp add: AppendQuote_def quote_loop.simps[of _ _ "[CHR 0x07]"] quote_loop.simps[of _ _ "[]"]
          appendEscapedRune_def IsPrint_def RuneError_def)
  have a: "list_all plain_ascii ''HS256''" by (simp add: plain_ascii_def)
  have j: "\<not> json_string [CHR 0x22, CHR 0x5C, CHR ''a'', CHR 0x22]"
    by (simp add: json_string_def json_chars.simps[of "[CHR 0x5C, CHR ''a'']"])
  show ?thesis
    using j by (simp add: buildHeaderJSON_def q AppendQuote_plain[OF a] HS256_def)
qed


section \<open>One allocation, and the RSA dispatch\<close>

lemma newToken_allocs:
  "newToken E c alg n hj = Some t \<Longrightarrow> allocs t = 1 \<and> len t < cap t"
  by (auto simp: newToken_correct cap_def)

lemma append_byte_allocs: "len t < cap t \<Longrightarrow> allocs (append_byte t b) = allocs t"
  by (simp add: append_byte_def)

lemma set_byte_allocs: "set_byte t i b = Some t' \<Longrightarrow> allocs t' = allocs t"
  by (auto simp: set_byte_def split: if_splits)

lemma Encode_slice_allocs: "Encode_slice t off src = Some t' \<Longrightarrow> allocs t' = allocs t"
  by (auto simp: Encode_slice_def split: if_splits)

lemma FormatWithoutSign_allocs:
  "FormatWithoutSign E c alg = Return (Some t, e) \<Longrightarrow> allocs t = 1"
  by (auto simp: FormatWithoutSign_def split: prod.splits option.splits dest: newToken_allocs)

lemma ECDSASign_allocs:
  "ECDSASign E c alg key = Return (Some t, e) \<Longrightarrow> allocs t = 1"
  by (auto simp: ECDSASign_def Let_def append_byte_allocs
        split: prod.splits option.splits if_splits dest!: newToken_allocs)

lemma EdDSASign_allocs:
  "EdDSASign E c key = Return (Some t, e) \<Longrightarrow> allocs t = 1"
  by (auto simp: EdDSASign_def Let_def split: prod.splits option.splits if_splits
        dest!: newToken_allocs set_byte_allocs Encode_slice_allocs)

lemma HMACSign_allocs:
  "HMACSign E c alg secret = Return (Some t, e) \<Longrightarrow> allocs t = 1"
  by (auto simp: HMACSign_def Let_def append_byte_allocs
        split: prod.splits option.splits if_splits dest!: newToken_allocs)

lemma RSASign_allocs:
  "RSASign E c alg key = Return (Some t, e) \<Longrightarrow> allocs t = 1"
  by (auto simp: RSASign_def Let_def split: prod.splits option.splits if_splits
        dest!: newToken_allocs set_byte_allocs Encode_slice_allocs)

text \<open>
  Claim C3. \<^verbatim>\<open>newToken\<close> returns, for every input, a buffer of length
  \<^verbatim>\<open>len(encodedHeader) + 1 + encodedLen(len(payload))\<close> and of capacity
  \<^verbatim>\<open>length + 1 + encSigLen\<close> that holds the encoded header, the delimiter and the encoded
  payload, allocated once; and a token returned by any of the five operations is still
  in that one allocation: no append and no in-place write has moved it.
\<close>

theorem newToken_single_allocation:
  "(\<exists>t. newToken E c alg encSigLen headerJSON = Some t \<and>
        len t = length (encodedHeader E c alg headerJSON) + 1 + EncodedLen (length (Raw c)) \<and>
        cap t = len t + 1 + encSigLen \<and>
        bytes_of t = encodedHeader E c alg headerJSON @ CHR ''.'' # base64url (Raw c) \<and>
        allocs t = 1) \<and>
   (FormatWithoutSign E c alg = Return (Some tok, e) \<longrightarrow> allocs tok = 1) \<and>
   (ECDSASign E c alg eckey = Return (Some tok, e) \<longrightarrow> allocs tok = 1) \<and>
   (EdDSASign E c edkey = Return (Some tok, e) \<longrightarrow> allocs tok = 1) \<and>
   (HMACSign E c alg secret = Return (Some tok, e) \<longrightarrow> allocs tok = 1) \<and>
   (RSASign E c alg rsakey = Return (Some tok, e) \<longrightarrow> allocs tok = 1)"
proof -
  have "\<exists>t. newToken E c alg encSigLen headerJSON = Some t \<and>
        len t = length (encodedHeader E c alg headerJSON) + 1 + EncodedLen (length (Raw c)) \<and>
        cap t = len t + 1 + encSigLen \<and>
        bytes_of t = encodedHeader E c alg headerJSON @ CHR ''.'' # base64url (Raw c) \<and>
        allocs t = 1"
    by (simp add: newToken_correct cap_def bytes_of_def unsigned_prefix_def length_base64url)
  then show ?thesis
    using FormatWithoutSign_allocs ECDSASign_allocs EdDSASign_allocs HMACSign_allocs RSASign_allocs
    by (intro conjI impI) assumption+
qed


theorem newToken_single_allocation_witness:
  "HMACSign env0 claims0 HS256 ''k'' =
     Return (Some \<lparr>arr = ''eyJhbGciOiJIUzI1NiJ9.e30.bW1tbW1tbW1tbW1tbW1tbW1tbW1tbW1tbW1tbW1tbW0'',
                   len = 68, allocs = 1\<rparr>, None) \<and>
   allocs \<lparr>arr = ''eyJhbGciOiJIUzI1NiJ9.e30.bW1tbW1tbW1tbW1tbW1tbW1tbW1tbW1tbW1tbW1tbW0'',
           len = 68, allocs = 1\<rparr> = 1"
proof -
  have h: "HMACSign env0 claims0 HS256 ''k'' =
     Return (Some \<lparr>arr = ''eyJhbGciOiJIUzI1NiJ9.e30.bW1tbW1tbW1tbW1tbW1tbW1tbW1tbW1tbW1tbW1tbW0'',
                   len = 68, allocs = 1\<rparr>, None)"
    by code_simp
  from h newToken_single_allocation [THEN conjunct2, THEN conjunct2, THEN conjunct2,
      THEN conjunct2, THEN conjunct1, THEN mp, OF h]
  show ?thesis by (rule conjI)
qed

lemma RSASign_primitive_error:
  assumes sy: "sync E c alg = (c', hj, None)"
    and lk: "hashLookup E alg RSAAlgs = (h, None)"
    and sg: "(if alg \<noteq> [] \<and> hd alg = CHR ''P''
              then rsa_SignPSS E key h (hash_Sum E h (unsigned_prefix E c' alg hj))
              else rsa_SignPKCS1v15 E key h (hash_Sum E h (unsigned_prefix E c' alg hj)))
             = (sig, Some err)"
  shows "RSASign E c alg key = Return (None, Some err)"
proof -
  define P where "P = unsigned_prefix E c' alg hj"
  define t0 where "t0 = \<lparr>arr = P @ replicate (1 + EncodedLen (Size key)) (CHR 0x00),
                          len = length P, allocs = 1\<rparr>"
  have nt: "newToken E c' alg (EncodedLen (Size key)) hj = Some t0"
    by (simp add: newToken_correct t0_def P_def del: replicate.simps)
  have b0: "bytes_of t0 = P" by (simp add: bytes_of_def t0_def)
  show ?thesis
  proof (cases "alg \<noteq> [] \<and> hd alg = CHR ''P''")
    case True
    then have "rsa_SignPSS E key h (hash_Sum E h P) = (sig, Some err)"
      using sg by (simp add: P_def)
    then show ?thesis using True
      by (simp add: RSASign_def sy lk nt Let_def b0 split: prod.splits)
  next
    case False
    then have "rsa_SignPKCS1v15 E key h (hash_Sum E h P) = (sig, Some err)"
      using sg by (auto simp: P_def split: if_splits)
    then show ?thesis using False
      by (auto simp: RSASign_def sy lk nt Let_def b0 split: prod.splits)
  qed
qed

text \<open>
  Claim C8. For an algorithm that the RSA lookup accepts, \<^verbatim>\<open>RSASign\<close> reserves
  \<^verbatim>\<open>encodedLen(key.Size())\<close> bytes after the delimiter, signs with PSS when the
  identifier starts with \<^verbatim>\<open>P\<close> and with PKCS#1 v1.5 otherwise, and returns the error of
  the chosen primitive or the unsigned prefix, the delimiter and the encoding of its
  signature, which fills the reserved bytes exactly because the signature has the size
  of the modulus.
\<close>

theorem RSASign_dispatch:
  assumes ok: "primitives_ok E"
    and sy: "sync E c alg = (c', hj, None)"
    and lk: "hashLookup E alg RSAAlgs = (h, None)"
    and P: "P = unsigned_prefix E c' alg hj"
    and res: "res = (if alg \<noteq> [] \<and> hd alg = CHR ''P''
                     then rsa_SignPSS E key h (hash_Sum E h P)
                     else rsa_SignPKCS1v15 E key h (hash_Sum E h P))"
  shows "(\<exists>t. newToken E c' alg (EncodedLen (Size key)) hj = Some t \<and>
              cap t = len t + 1 + EncodedLen (Size key)) \<and>
         RSASign E c alg key =
           (case res of
              (sig, Some err) \<Rightarrow> Return (None, Some err)
            | (sig, None) \<Rightarrow>
                Return (Some \<lparr>arr = P @ CHR ''.'' # base64url sig,
                              len = length P + 1 + EncodedLen (Size key),
                              allocs = 1\<rparr>, None)) \<and>
         (\<forall>sig. res = (sig, None) \<longrightarrow>
                length sig = Size key \<and> length (base64url sig) = EncodedLen (Size key))"
proof -
  have a: "\<exists>t. newToken E c' alg (EncodedLen (Size key)) hj = Some t \<and>
              cap t = len t + 1 + EncodedLen (Size key)"
    by (simp add: newToken_correct cap_def)
  have c: "length sig = Size key \<and> length (base64url sig) = EncodedLen (Size key)"
    if "res = (sig, None)" for sig
    using that ok unfolding res by (auto simp: primitives_ok_def length_base64url split: if_splits)
  have b: "RSASign E c alg key =
           (case res of
              (sig, Some err) \<Rightarrow> Return (None, Some err)
            | (sig, None) \<Rightarrow>
                Return (Some \<lparr>arr = P @ CHR ''.'' # base64url sig,
                              len = length P + 1 + EncodedLen (Size key),
                              allocs = 1\<rparr>, None))"
  proof (cases res)
    case (Pair sig err)
    show ?thesis
    proof (cases err)
      case None
      with Pair have "res = (sig, None)" by simp
      then show ?thesis
        using RSASign_correct[OF ok sy lk, of key sig] unfolding res P by simp
    next
      case (Some e)
      with Pair have "res = (sig, Some e)" by simp
      then show ?thesis
        using RSASign_primitive_error[OF sy lk, of key sig e] unfolding res P by simp
    qed
  qed
  from a b c show ?thesis by blast
qed


lemma primitives_ok_env0: "primitives_ok env0"
  by (simp add: primitives_ok_def env0_def)

theorem RSASign_dispatch_witness:
  "RSASign env0 claims0 PS256 rsa_key0 =
     (case (if PS256 \<noteq> [] \<and> hd PS256 = CHR ''P''
            then rsa_SignPSS env0 rsa_key0 5
                   (hash_Sum env0 5 (unsigned_prefix env0 claims0 PS256 None))
            else rsa_SignPKCS1v15 env0 rsa_key0 5
                   (hash_Sum env0 5 (unsigned_prefix env0 claims0 PS256 None))) of
        (sig, Some err) \<Rightarrow> Return (None, Some err)
      | (sig, None) \<Rightarrow>
          Return (Some \<lparr>arr = unsigned_prefix env0 claims0 PS256 None @ CHR ''.'' # base64url sig,
                        len = length (unsigned_prefix env0 claims0 PS256 None) + 1
                                + EncodedLen (Size rsa_key0),
                        allocs = 1\<rparr>, None))"
proof -
  have sy: "sync env0 claims0 PS256 = (claims0, None, None)" by (simp add: env0_def)
  have lk: "hashLookup env0 PS256 RSAAlgs = (5, None)" by code_simp
  show ?thesis
    by (rule RSASign_dispatch [OF primitives_ok_env0 sy lk refl refl, THEN conjunct2, THEN conjunct1])
qed


section \<open>Encoding in place\<close>

text \<open>
  Claim C4. The raw bytes are staged at the highest offsets of the reserved region
  \<open>[d, d + EncodedLen n)\<close> and the encoder writes from \<open>d\<close> on, in the same memory.
  Then the encoder does not panic and leaves in the region the encoding of the raw bytes
  as they were before the call, whatever they are: no raw byte was overwritten before it
  was read. In terms of the cursors: after each full group the write cursor
  \<open>d + 4 * (k + 1)\<close> has not passed the read cursor \<open>s + 3 * (k + 1)\<close>.
\<close>

theorem Encode_in_place:
  assumes "d + EncodedLen n \<le> length mem" and "s = d + EncodedLen n - n"
  shows "Encode mem (d, EncodedLen n) (s, n) =
           Some (take d mem @ base64url (take n (drop s mem)) @ drop (d + EncodedLen n) mem) \<and>
         (\<forall>k < n div 3. d + 4 * (k + 1) \<le> s + 3 * (k + 1))"
proof -
  have ge: "n \<le> EncodedLen n" by (rule EncodedLen_ge)
  have a: "Encode mem (d, EncodedLen n) (s, n) =
           Some (take d mem @ base64url (take n (drop s mem)) @ drop (d + EncodedLen n) mem)"
    using assms ge by (intro Encode_correct) auto
  have "d + 4 * (k + 1) \<le> s + 3 * (k + 1)" if "k < n div 3" for k
  proof -
    have "EncodedLen n = 4 * (n div 3) + EncodedLen (n mod 3)"
      using EncodedLen_mult3[of "n div 3" "n mod 3"] by simp
    moreover have "n = 3 * (n div 3) + n mod 3" by simp
    moreover have "n mod 3 \<le> EncodedLen (n mod 3)" by (rule EncodedLen_ge)
    ultimately have "n div 3 + n \<le> EncodedLen n" by linarith
    then show ?thesis using that assms(2) ge by simp
  qed
  with a show ?thesis by blast
qed

theorem Encode_in_place_witness:
  "Encode (replicate 4 (CHR 0x00) @ ''abcdefgh'') (1, EncodedLen 8) (4, 8) =
     Some (take 1 (replicate 4 (CHR 0x00) @ ''abcdefgh'')
            @ base64url (take 8 (drop 4 (replicate 4 (CHR 0x00) @ ''abcdefgh'')))
            @ drop (1 + EncodedLen 8) (replicate 4 (CHR 0x00) @ ''abcdefgh'')) \<and>
   (\<forall>k < 8 div 3. 1 + 4 * (k + 1) \<le> (4::nat) + 3 * (k + 1))"
proof -
  have a: "1 + EncodedLen 8 \<le> length (replicate 4 (CHR 0x00) @ ''abcdefgh'')"
    by (simp add: EncodedLen_def)
  have b: "(4::nat) = 1 + EncodedLen 8 - 8" by (simp add: EncodedLen_def)
  show ?thesis by (rule Encode_in_place [OF a b])
qed


section \<open>The shape of a token\<close>

lemma enc6_alphabet: "enc6 v k \<in> set encodeURL"
proof -
  have "length encodeURL = 64" by (simp add: encodeURL_def)
  then have "v div 2 ^ k mod 64 < length encodeURL" by simp
  then show ?thesis unfolding enc6_def by (rule nth_mem)
qed

lemma base64url_alphabet: "is_base64url (base64url xs)"
  by (induction xs rule: base64url.induct)
     (simp_all add: is_base64url_def Let_def enc6_alphabet)

lemma dot_not_base64url: "is_base64url seg \<Longrightarrow> CHR ''.'' \<notin> set seg"
proof -
  have "CHR ''.'' \<notin> set encodeURL" by (simp add: encodeURL_def)
  then show "is_base64url seg \<Longrightarrow> CHR ''.'' \<notin> set seg"
    by (auto simp: is_base64url_def list_all_iff)
qed

lemma segments_append:
  "CHR ''.'' \<notin> set a \<Longrightarrow> segments (a @ bs) = (a @ hd (segments bs)) # tl (segments bs)"
proof (induction a)
  case Nil
  have "segments bs \<noteq> []" by (cases bs) simp_all
  then show ?case by simp
next
  case (Cons x a)
  then show ?case by auto
qed

lemma segments_one: "CHR ''.'' \<notin> set a \<Longrightarrow> segments a = [a]"
  using segments_append[of a "[]"] by simp

lemma segments_cons: "CHR ''.'' \<notin> set a \<Longrightarrow> segments (a @ CHR ''.'' # bs) = a # segments bs"
  using segments_append[of a "CHR ''.'' # bs"] by simp

lemma token_shape_2:
  "is_base64url a \<Longrightarrow> is_base64url b \<Longrightarrow> token_shape 2 (a @ CHR ''.'' # b)"
  by (simp add: token_shape_def segments_cons segments_one dot_not_base64url)

lemma token_shape_3:
  "is_base64url a \<Longrightarrow> is_base64url b \<Longrightarrow> is_base64url c \<Longrightarrow>
   token_shape 3 (a @ CHR ''.'' # b @ CHR ''.'' # c)"
  by (simp add: token_shape_def segments_cons segments_one dot_not_base64url)

lemma encodedHeader_alphabet: "is_base64url (encodedHeader E c alg hj)"
proof (cases "fast_path c alg hj")
  case True
  then have "alg \<in> set fixed_algs" by (simp add: fast_path_def fixed_header_nonempty_iff)
  define J where "J = ''{\"alg\":\"'' @ alg @ ''\"}''"
  have "fixed_header alg = base64url J @ ''.''"
    unfolding J_def using \<open>alg \<in> set fixed_algs\<close> by (rule fixed_header_base64url)
  then have "butlast (fixed_header alg) = base64url J" by (simp add: butlast_append)
  then show ?thesis using True by (simp add: encodedHeader_def base64url_alphabet)
next
  case False
  then show ?thesis by (simp add: encodedHeader_def base64url_alphabet)
qed

lemma signed_shape:
  "token_shape 3 (unsigned_prefix E c alg hj @ CHR ''.'' # base64url sig)"
  unfolding unsigned_prefix_def
  using token_shape_3[OF encodedHeader_alphabet base64url_alphabet base64url_alphabet]
  by simp

lemma unsigned_shape: "token_shape 2 (unsigned_prefix E c alg hj)"
  unfolding unsigned_prefix_def
  by (rule token_shape_2[OF encodedHeader_alphabet base64url_alphabet])


lemma bytes_of_whole: "len t = length (arr t) \<Longrightarrow> bytes_of t = arr t"
  by (simp add: bytes_of_def)

lemma HMACSign_shape:
  assumes ok: "primitives_ok E" and r: "HMACSign E c alg secret = Return (Some tok, e)"
  shows "token_shape 3 (bytes_of tok)"
proof -
  from r obtain c' hj h where s: "secret \<noteq> []" and sy: "sync E c alg = (c', hj, None)"
    and lk: "hashLookup E alg HMACAlgs = (h, None)"
    by (auto simp: HMACSign_def split: if_splits prod.splits option.splits)
  from HMACSign_correct[OF ok s sy lk] r
  have t: "tok = \<lparr>arr = unsigned_prefix E c' alg hj @ CHR ''.''
                      # base64url (hmac_Sum E h secret (unsigned_prefix E c' alg hj)),
                   len = length (unsigned_prefix E c' alg hj) + 1 + EncodedLen (hash_Size E h),
                   allocs = 1\<rparr>"
    by simp
  have "length (hmac_Sum E h secret (unsigned_prefix E c' alg hj)) = hash_Size E h"
    using ok by (simp add: primitives_ok_def)
  then have "bytes_of tok = arr tok"
    by (intro bytes_of_whole) (simp add: t length_base64url)
  then show ?thesis by (simp add: t signed_shape)
qed

lemma RSASign_shape:
  assumes ok: "primitives_ok E" and r: "RSASign E c alg key = Return (Some tok, e)"
  shows "token_shape 3 (bytes_of tok)"
proof -
  from r obtain c' hj h where sy: "sync E c alg = (c', hj, None)"
    and lk: "hashLookup E alg RSAAlgs = (h, None)"
    by (auto simp: RSASign_def split: if_splits prod.splits option.splits)
  define res where "res = (if alg \<noteq> [] \<and> hd alg = CHR ''P''
              then rsa_SignPSS E key h (hash_Sum E h (unsigned_prefix E c' alg hj))
              else rsa_SignPKCS1v15 E key h (hash_Sum E h (unsigned_prefix E c' alg hj)))"
  obtain sig err where re: "res = (sig, err)" by (cases res)
  show ?thesis
  proof (cases err)
    case (Some x)
    with re RSASign_primitive_error[OF sy lk, of key sig x] r show ?thesis
      by (simp add: res_def)
  next
    case None
    with re have rs: "res = (sig, None)" by simp
    from RSASign_correct[OF ok sy lk rs[unfolded res_def]] r
    have t: "tok = \<lparr>arr = unsigned_prefix E c' alg hj @ CHR ''.'' # base64url sig,
                   len = length (unsigned_prefix E c' alg hj) + 1 + EncodedLen (Size key),
                   allocs = 1\<rparr>"
      by simp
    have "length sig = Size key"
      using ok rs by (auto simp: primitives_ok_def res_def split: if_splits)
    then have "bytes_of tok = arr tok"
      by (intro bytes_of_whole) (simp add: t length_base64url)
    then show ?thesis by (simp add: t signed_shape)
  qed
qed

lemma EdDSASign_shape:
  assumes ok: "primitives_ok E" and r: "EdDSASign E c key = Return (Some tok, e)"
  shows "token_shape 3 (bytes_of tok)"
proof -
  from r obtain c' hj where sy: "sync E c EdDSA = (c', hj, None)"
    by (auto simp: EdDSASign_def split: if_splits prod.splits option.splits)
  from r sy obtain sig where sg: "ed25519_Sign E key (unsigned_prefix E c' EdDSA hj) = Some sig"
    by (auto simp: EdDSASign_def newToken_correct bytes_of_def split: option.splits)
  from EdDSASign_correct[OF ok sy sg] r
  have t: "tok = \<lparr>arr = unsigned_prefix E c' EdDSA hj @ CHR ''.'' # base64url sig,
                   len = length (unsigned_prefix E c' EdDSA hj) + 1 + EncodedLen 64,
                   allocs = 1\<rparr>"
    by simp
  have "length sig = 64" using ok sg by (auto simp: primitives_ok_def)
  then have "bytes_of tok = arr tok"
    by (intro bytes_of_whole) (simp add: t length_base64url)
  then show ?thesis by (simp add: t signed_shape)
qed

lemma ECDSASign_shape:
  assumes r: "ECDSASign E c alg key = Return (Some tok, e)"
  shows "token_shape 3 (bytes_of tok)"
proof -
  from r obtain c' hj h where sy: "sync E c alg = (c', hj, None)"
    and lk: "hashLookup E alg ECDSAAlgs = (h, None)"
    by (auto simp: ECDSASign_def split: if_splits prod.splits option.splits)
  define p where "p = (BitSize key + 7) div 8"
  define n where "n = EncodedLen (2 * p)"
  obtain rr ss err where sg0: "ecdsa_Sign E key (hash_Sum E h (unsigned_prefix E c' alg hj)) = (rr, ss, err)"
    by (cases "ecdsa_Sign E key (hash_Sum E h (unsigned_prefix E c' alg hj))") auto
  have "err = None"
  proof (cases err)
    case (Some x)
    with r sy lk sg0 show ?thesis
      by (auto simp: ECDSASign_def Let_def newToken_correct bytes_of_def)
  qed simp
  with sg0 have sg: "ecdsa_Sign E key (hash_Sum E h (unsigned_prefix E c' alg hj)) = (rr, ss, None)"
    by simp
  note u = ECDSASign_unfold[OF sy lk sg p_def n_def]
  from u r obtain sig where pk: "pack_signature (IntSize E) p (replicate n (CHR 0x00)) rr ss = Some sig"
    by (auto split: option.splits)
  from u r pk
  have t: "tok = \<lparr>arr = unsigned_prefix E c' alg hj @ CHR ''.'' # base64url (drop (n - 2 * p) sig),
                   len = length (unsigned_prefix E c' alg hj) + 1 + n, allocs = 1\<rparr>"
    by simp
  have "length sig = n" using pack_signature_length[OF pk] by simp
  moreover have "2 * p \<le> n" by (simp add: n_def EncodedLen_ge)
  ultimately have "length (base64url (drop (n - 2 * p) sig)) = n"
    by (simp add: length_base64url n_def)
  then have "bytes_of tok = arr tok"
    by (intro bytes_of_whole) (simp add: t)
  then show ?thesis by (simp add: t signed_shape)
qed

lemma FormatWithoutSign_shape:
  assumes r: "FormatWithoutSign E c alg = Return (Some tok, e)"
  shows "\<exists>c' hj. sync E c alg = (c', hj, None) \<and> newToken E c' alg 0 hj = Some tok \<and>
           bytes_of tok = encodedHeader E c' alg hj @ CHR ''.'' # base64url (Raw c') \<and>
           token_shape 2 (bytes_of tok)"
proof -
  from r obtain c' hj where sy: "sync E c alg = (c', hj, None)"
    and nt: "newToken E c' alg 0 hj = Some tok"
    by (auto simp: FormatWithoutSign_def split: prod.splits option.splits)
  from nt have b: "bytes_of tok = unsigned_prefix E c' alg hj"
    by (auto simp: newToken_correct bytes_of_def)
  with sy nt unsigned_shape[of E c' alg hj] show ?thesis
    by (auto simp: unsigned_prefix_def)
qed

text \<open>
  Claim C7. With primitives that keep their length contracts, a token returned by
  \<^verbatim>\<open>ECDSASign\<close>, \<^verbatim>\<open>EdDSASign\<close>, \<^verbatim>\<open>HMACSign\<close> or \<^verbatim>\<open>RSASign\<close> has exactly three segments, each
  of base64url characters only (so no padding character); a token returned by
  \<^verbatim>\<open>FormatWithoutSign\<close> is what \<^verbatim>\<open>newToken\<close> returns for a reserved length of zero: the
  encoded header, the delimiter and the encoded payload, two segments and nothing after.
\<close>

theorem token_segments:
  assumes "primitives_ok E"
  shows "(ECDSASign E c alg eckey = Return (Some tok, e) \<longrightarrow> token_shape 3 (bytes_of tok)) \<and>
         (EdDSASign E c edkey = Return (Some tok, e) \<longrightarrow> token_shape 3 (bytes_of tok)) \<and>
         (HMACSign E c alg secret = Return (Some tok, e) \<longrightarrow> token_shape 3 (bytes_of tok)) \<and>
         (RSASign E c alg rsakey = Return (Some tok, e) \<longrightarrow> token_shape 3 (bytes_of tok)) \<and>
         (FormatWithoutSign E c alg = Return (Some tok, e) \<longrightarrow>
            (\<exists>c' hj. sync E c alg = (c', hj, None) \<and> newToken E c' alg 0 hj = Some tok \<and>
               bytes_of tok = encodedHeader E c' alg hj @ CHR ''.'' # base64url (Raw c') \<and>
               token_shape 2 (bytes_of tok)))"
  using ECDSASign_shape EdDSASign_shape[OF assms] HMACSign_shape[OF assms] RSASign_shape[OF assms]
    FormatWithoutSign_shape
  by (intro conjI impI) assumption+


theorem token_segments_witness:
  "ECDSASign env0 claims0 ES256 ecdsa_key0 =
     Return (Some \<lparr>arr = ''eyJhbGciOiJFUzI1NiJ9.e30.AAAAAAAAAAAAAAAAAAAAAAAAAAAAAAAAAAAAAAAAAQIAAAAAAAAAAAAAAAAAAAAAAAAAAAAAAAAAAAAAAAAAAw'',
                   len = 111, allocs = 1\<rparr>, None) \<and>
   token_shape 3 (bytes_of \<lparr>arr = ''eyJhbGciOiJFUzI1NiJ9.e30.AAAAAAAAAAAAAAAAAAAAAAAAAAAAAAAAAAAAAAAAAQIAAAAAAAAAAAAAAAAAAAAAAAAAAAAAAAAAAAAAAAAAAw'',
                   len = 111, allocs = 1\<rparr>)"
proof -
  have h: "ECDSASign env0 claims0 ES256 ecdsa_key0 =
     Return (Some \<lparr>arr = ''eyJhbGciOiJFUzI1NiJ9.e30.AAAAAAAAAAAAAAAAAAAAAAAAAAAAAAAAAAAAAAAAAQIAAAAAAAAAAAAAAAAAAAAAAAAAAAAAAAAAAAAAAAAAAw'',
                   len = 111, allocs = 1\<rparr>, None)"
    by code_simp
  from h token_segments [OF primitives_ok_env0, THEN conjunct1, THEN mp, OF h]
  show ?thesis by (rule conjI)
qed

end
